theory Spec2Isabelle
  imports Complex_Main "HOL-Library.Multiset" "HOL-Library.Sublist"
begin

section \<open>Strings and numbers of the host language\<close>

text \<open>
  A JavaScript string is a sequence of UTF-16 code units. The menu data is Turkish (the
  dotless i of the first preferred category is U+0131), so the 8-bit
  \<^typ>\<open>char\<close> is too small: a string is a list of code units, each a natural number.
  \<open>str\<close> injects an ASCII literal, so that constants stay readable.
\<close>

type_synonym jsstring = "nat list"

definition str :: "string \<Rightarrow> jsstring" where
  "str s = map of_char s"

text \<open>
  A JavaScript number is an IEEE double. Every finite double is a rational; the three
  other values are kept apart, since \<^verbatim>\<open>Number.isFinite\<close> and \<^verbatim>\<open><\<close>
  treat them specially.
\<close>

datatype number = Finite rat | PosInfinity | NegInfinity | NaN

definition isFinite :: "number \<Rightarrow> bool" where
  "isFinite p = (case p of Finite _ \<Rightarrow> True | _ \<Rightarrow> False)"

text \<open>\<^verbatim>\<open>p < 0\<close>: false for \<^verbatim>\<open>NaN\<close> and for \<^verbatim>\<open>+Infinity\<close>.\<close>

definition ltZero :: "number \<Rightarrow> bool" where
  "ltZero p = (case p of Finite r \<Rightarrow> r < 0 | NegInfinity \<Rightarrow> True | _ \<Rightarrow> False)"

text \<open>
  \<^verbatim>\<open>String.prototype.trim\<close> removes the code units of the grammar's WhiteSpace and
  LineTerminator productions from both ends.
\<close>

definition isWhiteSpace :: "nat \<Rightarrow> bool" where
  "isWhiteSpace c =
     (c = 0x09 \<or> c = 0x0A \<or> c = 0x0B \<or> c = 0x0C \<or> c = 0x0D \<or> c = 0x20 \<or> c = 0xA0 \<or>
      c = 0x1680 \<or> (0x2000 \<le> c \<and> c \<le> 0x200A) \<or> c = 0x2028 \<or> c = 0x2029 \<or>
      c = 0x202F \<or> c = 0x205F \<or> c = 0x3000 \<or> c = 0xFEFF)"

definition trim :: "jsstring \<Rightarrow> jsstring" where
  "trim s = rev (dropWhile isWhiteSpace (rev (dropWhile isWhiteSpace s)))"

text \<open>
  \<^verbatim>\<open>String.prototype.toLowerCase\<close> applies the Unicode lower-case mapping, a table
  of the platform (with rules that look at the neighbouring characters) that is not part
  of this repository. It is the parameter \<open>toLowerCase\<close> of every function that
  normalizes a string, as the collation is the parameter \<open>cmp\<close> of every function that
  sorts strings. The theorems hold for every such function, or name what they need of it.
\<close>

text \<open>
  \<^verbatim>\<open>String.prototype.includes\<close>: the argument occurs as a contiguous run of code
  units.
\<close>

fun includesStr :: "jsstring \<Rightarrow> jsstring \<Rightarrow> bool" where
  "includesStr [] q = (q = [])"
| "includesStr (c # s) q = (prefix q (c # s) \<or> includesStr s q)"

section \<open>String normalization\<close>

text \<open>
  \<^verbatim>\<open>function normalize(s: string) { return (s || "").trim().toLowerCase(); }\<close>
  The argument is typed \<^verbatim>\<open>string\<close>, but the guard \<^verbatim>\<open>s || ""\<close> also accepts
  \<^verbatim>\<open>undefined\<close> and \<^verbatim>\<open>null\<close>, which are \<open>None\<close> here. The empty string is
  falsy as well, and is replaced by itself.
\<close>

definition orElse :: "jsstring option \<Rightarrow> jsstring \<Rightarrow> jsstring" where
  "orElse s d = (case s of None \<Rightarrow> d | Some v \<Rightarrow> if v = [] then d else v)"

definition normalize :: "(jsstring \<Rightarrow> jsstring) \<Rightarrow> jsstring option \<Rightarrow> jsstring" where
  "normalize toLowerCase s = toLowerCase (trim (orElse s []))"

text \<open>
  A string is trimmed when it has no white space at either end. What the idempotence of
  normalization needs of the platform's \<^verbatim>\<open>toLowerCase\<close>: the empty string stays
  empty, a lower-cased string is not changed by lower-casing it again, and lower-casing
  puts no white space at an end of a string that has none there.
\<close>

definition trimmed :: "jsstring \<Rightarrow> bool" where
  "trimmed s = (s = [] \<or> (\<not> isWhiteSpace (hd s) \<and> \<not> isWhiteSpace (last s)))"

definition lowerCasing :: "(jsstring \<Rightarrow> jsstring) \<Rightarrow> bool" where
  "lowerCasing lc =
     (lc [] = [] \<and> (\<forall>s. lc (lc s) = lc s) \<and> (\<forall>s. trimmed s \<longrightarrow> trimmed (lc s)))"

section \<open>The menu item and the configured constants\<close>

text \<open>
  \<^verbatim>\<open>type MenuItem = { id; name; price; category; isAvailable; imageUrl?; description? }\<close>,
  declared alike in the three source files. The field \<^verbatim>\<open>id\<close> is \<open>item_id\<close> here.
\<close>

record MenuItem =
  item_id :: int
  name :: jsstring
  price :: number
  category :: jsstring
  isAvailable :: bool
  imageUrl :: "jsstring option"
  description :: "jsstring option"

text \<open>
  \<^verbatim>\<open>CATEGORY_ORDER\<close>: eleven Turkish category names. The code units beyond ASCII are
  U+0131 (dotless i), U+015F (s cedilla), U+011F (g breve), U+0130 (capital dotted I) and
  U+00E7 (c cedilla).
\<close>

definition CATEGORY_ORDER :: "jsstring list" where
  "CATEGORY_ORDER =
     [str ''Kahvalt'' @ [0x131],
      str ''Burger'',
      str ''Tost'',
      str ''At'' @ [0x131, 0x15F] @ str ''t'' @ [0x131] @ str ''rmal'' @ [0x131] @ str ''k'',
      str ''So'' @ [0x11F] @ str ''uk '' @ [0x130, 0xE7] @ str ''ecek'',
      str ''S'' @ [0x131] @ str ''cak '' @ [0x130, 0xE7] @ str ''ecek'',
      str ''Wrap'',
      str ''Tavuklar'',
      str ''Makarna'',
      str ''Kokteyller'',
      str ''Nargile'']"

text \<open>The sentinel of the category selectors (``all''), with U+00FC twice.\<close>

definition TUMU :: jsstring where
  "TUMU = str ''T'' @ [0xFC] @ str ''m'' @ [0xFC]"

text \<open>The key of the synthetic group (``other''), with U+011F.\<close>

definition DIGER :: jsstring where
  "DIGER = str ''Di'' @ [0x11F] @ str ''er''"

section \<open>Sorting with a comparator\<close>

text \<open>
  \<^verbatim>\<open>Array.prototype.sort(comparefn)\<close> is stable and reads only the sign of what the
  comparator returns. For a consistent comparator the language fixes the result: the
  stable sorted permutation, which insertion from the right computes. (For an
  inconsistent comparator the order is implementation-defined; the result is still a
  permutation.) A comparator returns an \<^typ>\<open>int\<close> here, read by its sign.

  \<^verbatim>\<open>localeCompare(b, "tr")\<close> is the platform's Turkish collation, a table that is not
  part of this repository: it is the parameter \<open>cmp\<close> of every function that sorts
  strings.
\<close>

fun js_insert :: "('a \<Rightarrow> 'a \<Rightarrow> int) \<Rightarrow> 'a \<Rightarrow> 'a list \<Rightarrow> 'a list" where
  "js_insert cmp x [] = [x]"
| "js_insert cmp x (y # ys) = (if cmp x y \<le> 0 then x # y # ys else y # js_insert cmp x ys)"

definition js_sort :: "('a \<Rightarrow> 'a \<Rightarrow> int) \<Rightarrow> 'a list \<Rightarrow> 'a list" where
  "js_sort cmp xs = foldr (js_insert cmp) xs []"

section \<open>The public view: \<^verbatim>\<open>page.tsx\<close> and \<^verbatim>\<open>menu/MenuClient.tsx\<close>\<close>

text \<open>
  The two files hold the same pipeline, token for token; one model serves both.
  \<^verbatim>\<open>const activeItems = all.filter((x) => x.isAvailable)\<close>
\<close>

definition activeItems :: "MenuItem list \<Rightarrow> MenuItem list" where
  "activeItems all = filter (\<lambda>x. isAvailable x) all"

text \<open>
  \<^verbatim>\<open>filtered\<close>: the category filter, then the search filter, each behind its guard.
  A non-empty string is truthy, so \<^verbatim>\<open>if (q)\<close> is \<open>q \<noteq> []\<close>.
\<close>

definition filtered ::
  "(jsstring \<Rightarrow> jsstring) \<Rightarrow> MenuItem list \<Rightarrow> jsstring \<Rightarrow> jsstring \<Rightarrow> MenuItem list" where
  "filtered toLowerCase active activeCategory search =
     (let items = active;
          items = (if activeCategory \<noteq> TUMU
                   then (let ac = normalize toLowerCase (Some activeCategory)
                         in filter (\<lambda>x. normalize toLowerCase (Some (category x)) = ac) items)
                   else items);
          q = normalize toLowerCase (Some search);
          items = (if q \<noteq> []
                   then filter (\<lambda>x. let n = normalize toLowerCase (Some (name x));
                                        c = normalize toLowerCase (Some (category x))
                                    in includesStr n q \<or> includesStr c q) items
                   else items)
      in items)"

text \<open>
  A \<^verbatim>\<open>Map\<close> iterates in insertion order, and \<^verbatim>\<open>set\<close> on a key it already has
  keeps the key's place: an association list, updated in place or extended at the end.
\<close>

type_synonym 'v jsmap = "(jsstring \<times> 'v) list"

definition map_has :: "'v jsmap \<Rightarrow> jsstring \<Rightarrow> bool" where
  "map_has m k = (k \<in> set (map fst m))"

definition map_get :: "'v jsmap \<Rightarrow> jsstring \<Rightarrow> 'v option" where
  "map_get m k = map_of m k"

fun map_set :: "'v jsmap \<Rightarrow> jsstring \<Rightarrow> 'v \<Rightarrow> 'v jsmap" where
  "map_set [] k v = [(k, v)]"
| "map_set ((k', v') # m) k v = (if k' = k then (k, v) # m else (k', v') # map_set m k v)"

definition map_keys :: "'v jsmap \<Rightarrow> jsstring list" where
  "map_keys m = map fst m"

text \<open>
  \<^verbatim>\<open>const key = (item.category || DIGER).trim() || DIGER\<close>, where \<^verbatim>\<open>DIGER\<close>
  stands for the source's literal: the trimmed category, not lower-cased, or the
  synthetic key when that is empty.
\<close>

definition groupKey :: "MenuItem \<Rightarrow> jsstring" where
  "groupKey item =
     (let t = trim (orElse (Some (category item)) DIGER) in if t = [] then DIGER else t)"

text \<open>
  One round of the first loop:
  \<^verbatim>\<open>if (!map.has(key)) map.set(key, []); map.get(key)!.push(item);\<close>
  The array under \<open>key\<close> is there after the guard (lemma \<open>groupStep_defined\<close>), so
  the \<open>None\<close> branch, where the source would raise a TypeError, is never taken.
\<close>

definition groupStep :: "MenuItem list jsmap \<Rightarrow> MenuItem \<Rightarrow> MenuItem list jsmap" where
  "groupStep m item =
     (let key = groupKey item;
          m = (if \<not> map_has m key then map_set m key [] else m)
      in case map_get m key of
           Some arr \<Rightarrow> map_set m key (arr @ [item])
         | None \<Rightarrow> m)"

text \<open>
  One round of the second loop:
  \<^verbatim>\<open>items.sort((a, b) => a.name.localeCompare(b.name, "tr")); map.set(k, items);\<close>
\<close>

definition byName :: "(jsstring \<Rightarrow> jsstring \<Rightarrow> int) \<Rightarrow> MenuItem \<Rightarrow> MenuItem \<Rightarrow> int" where
  "byName cmp a b = cmp (name a) (name b)"

definition sortStep ::
  "(jsstring \<Rightarrow> jsstring \<Rightarrow> int) \<Rightarrow> MenuItem list jsmap \<Rightarrow> jsstring \<times> MenuItem list \<Rightarrow>
   MenuItem list jsmap" where
  "sortStep cmp m e = (case e of (k, items) \<Rightarrow> map_set m k (js_sort (byName cmp) items))"

text \<open>
  \<^verbatim>\<open>grouped\<close>. \<^verbatim>\<open>map.get(c)!\<close> is read only for keys the map has (a filter on
  \<^verbatim>\<open>map.has\<close>, or the map's own keys), so \<open>the\<close> is applied to \<open>Some\<close> only
  (lemma \<open>map_get_defined\<close>).
\<close>

definition grouped ::
  "(jsstring \<Rightarrow> jsstring \<Rightarrow> int) \<Rightarrow> MenuItem list \<Rightarrow> (jsstring \<times> MenuItem list) list" where
  "grouped cmp flt =
     (let m = foldl groupStep [] flt;
          m = foldl (sortStep cmp) m m;
          ordered = map (\<lambda>c. (c, the (map_get m c))) (filter (\<lambda>c. map_has m c) CATEGORY_ORDER);
          extras = map (\<lambda>k. (k, the (map_get m k)))
                     (js_sort cmp (filter (\<lambda>k. k \<notin> set CATEGORY_ORDER) (map_keys m)))
      in ordered @ extras)"

section \<open>What the grouping computes\<close>

text \<open>
  Three notions to state the result of \<open>grouped\<close> with: the keys of a list in the order
  of their first occurrence (the iteration order of the \<^verbatim>\<open>Map\<close> after the first
  loop), the group of a key, and the order in which the keys are emitted.
\<close>

definition firstSeen :: "'a list \<Rightarrow> 'a list" where
  "firstSeen xs = rev (remdups (rev xs))"

definition sortedGroup ::
  "(jsstring \<Rightarrow> jsstring \<Rightarrow> int) \<Rightarrow> MenuItem list \<Rightarrow> jsstring \<Rightarrow> jsstring \<times> MenuItem list" where
  "sortedGroup cmp flt k = (k, js_sort (byName cmp) (filter (\<lambda>x. groupKey x = k) flt))"

definition groupKeys :: "(jsstring \<Rightarrow> jsstring \<Rightarrow> int) \<Rightarrow> MenuItem list \<Rightarrow> jsstring list" where
  "groupKeys cmp flt =
     filter (\<lambda>c. c \<in> groupKey ` set flt) CATEGORY_ORDER @
     js_sort cmp (filter (\<lambda>k. k \<notin> set CATEGORY_ORDER) (firstSeen (map groupKey flt)))"

section \<open>The admin view: \<^verbatim>\<open>admin/page.tsx\<close>\<close>

datatype SortMode = sort_default | price_asc | price_desc | name_asc

text \<open>
  \<^verbatim>\<open>Number(a.price) - Number(b.price)\<close>, as the sort reads it: its sign, with
  \<^verbatim>\<open>NaN\<close> read as zero. The difference of two finite doubles has the sign of the
  exact difference; \<^verbatim>\<open>Infinity - Infinity\<close> is \<^verbatim>\<open>NaN\<close>.
\<close>

fun priceDiff :: "number \<Rightarrow> number \<Rightarrow> int" where
  "priceDiff (Finite x) (Finite y) = (if x < y then - 1 else if y < x then 1 else 0)"
| "priceDiff NaN _ = 0"
| "priceDiff _ NaN = 0"
| "priceDiff PosInfinity PosInfinity = 0"
| "priceDiff NegInfinity NegInfinity = 0"
| "priceDiff PosInfinity _ = 1"
| "priceDiff _ PosInfinity = - 1"
| "priceDiff NegInfinity _ = - 1"
| "priceDiff _ NegInfinity = 1"

text \<open>
  The comparator of the default mode:
  \<^verbatim>\<open>if (a.isAvailable !== b.isAvailable) return a.isAvailable ? -1 : 1;\<close>
  \<^verbatim>\<open>const c = a.category.localeCompare(b.category, "tr"); if (c !== 0) return c;\<close>
  \<^verbatim>\<open>return a.name.localeCompare(b.name, "tr");\<close>
\<close>

definition defaultCompare ::
  "(jsstring \<Rightarrow> jsstring \<Rightarrow> int) \<Rightarrow> MenuItem \<Rightarrow> MenuItem \<Rightarrow> int" where
  "defaultCompare cmp a b =
     (if isAvailable a \<noteq> isAvailable b then (if isAvailable a then - 1 else 1)
      else (let c = cmp (category a) (category b)
            in if c \<noteq> 0 then c else cmp (name a) (name b)))"

text \<open>
  \<^verbatim>\<open>filteredMenu\<close>: a copy of the list, the search filter, the category filter, then
  the sort of the selected mode.
\<close>

definition filteredMenu ::
  "(jsstring \<Rightarrow> jsstring) \<Rightarrow> (jsstring \<Rightarrow> jsstring \<Rightarrow> int) \<Rightarrow> MenuItem list \<Rightarrow> jsstring \<Rightarrow>
   jsstring \<Rightarrow> SortMode \<Rightarrow> MenuItem list" where
  "filteredMenu toLowerCase cmp menu search categoryFilter sortMode =
     (let items = menu;
          q = normalize toLowerCase (Some search);
          items = (if q \<noteq> []
                   then filter (\<lambda>x. let n = normalize toLowerCase (Some (name x));
                                        c = normalize toLowerCase (Some (category x))
                                    in includesStr n q \<or> includesStr c q) items
                   else items);
          items = (if categoryFilter \<noteq> TUMU
                   then (let cf = normalize toLowerCase (Some categoryFilter)
                         in filter (\<lambda>x. normalize toLowerCase (Some (category x)) = cf) items)
                   else items);
          items = (if sortMode = price_asc
                   then js_sort (\<lambda>a b. priceDiff (price a) (price b)) items
                   else if sortMode = price_desc
                   then js_sort (\<lambda>a b. priceDiff (price b) (price a)) items
                   else if sortMode = name_asc
                   then js_sort (\<lambda>a b. cmp (name a) (name b)) items
                   else js_sort (defaultCompare cmp) items)
      in items)"

text \<open>
  The comparator that \<^verbatim>\<open>filteredMenu\<close> hands to its sort, by mode; named to state
  what the pipeline computes.
\<close>

definition modeCompare ::
  "(jsstring \<Rightarrow> jsstring \<Rightarrow> int) \<Rightarrow> SortMode \<Rightarrow> MenuItem \<Rightarrow> MenuItem \<Rightarrow> int" where
  "modeCompare cmp mode =
     (case mode of
        price_asc \<Rightarrow> (\<lambda>a b. priceDiff (price a) (price b))
      | price_desc \<Rightarrow> (\<lambda>a b. priceDiff (price b) (price a))
      | name_asc \<Rightarrow> (\<lambda>a b. cmp (name a) (name b))
      | sort_default \<Rightarrow> defaultCompare cmp)"

text \<open>
  The default order as the specification words it, with the \<^emph>\<open>normalized\<close> category
  in the second place. It is not what \<open>defaultCompare\<close> computes; it is here to be
  compared with it.
\<close>

definition defaultCompareNormalized ::
  "(jsstring \<Rightarrow> jsstring) \<Rightarrow> (jsstring \<Rightarrow> jsstring \<Rightarrow> int) \<Rightarrow> MenuItem \<Rightarrow> MenuItem \<Rightarrow> int" where
  "defaultCompareNormalized toLowerCase cmp a b =
     (if isAvailable a \<noteq> isAvailable b then (if isAvailable a then - 1 else 1)
      else (let c = cmp (normalize toLowerCase (Some (category a))) (normalize toLowerCase (Some (category b)))
            in if c \<noteq> 0 then c else cmp (name a) (name b)))"

section \<open>The pipelines on a store of arrays\<close>

text \<open>
  Whether a pipeline leaves its source alone depends on which array each step writes
  to: \<^verbatim>\<open>filter\<close> and the spread \<^verbatim>\<open>[...menu]\<close> build a new array, \<^verbatim>\<open>push\<close>
  and \<^verbatim>\<open>sort\<close> write into the one they are called on. So the pipelines are modelled a
  second time over a store: the list of all arrays of items, an array's address being its
  index; allocation appends. The items themselves are never written to. The functions
  of the previous sections say what is computed; these say where.
\<close>

type_synonym addr = nat

type_synonym store = "MenuItem list list"

definition alloc :: "store \<Rightarrow> MenuItem list \<Rightarrow> store \<times> addr" where
  "alloc h xs = (h @ [xs], length h)"

text \<open>\<^verbatim>\<open>all.filter((x) => x.isAvailable)\<close>\<close>

definition h_activeItems :: "store \<Rightarrow> addr \<Rightarrow> store \<times> addr" where
  "h_activeItems h all = alloc h (filter (\<lambda>x. isAvailable x) (h ! all))"

text \<open>
  \<^verbatim>\<open>filtered\<close>: \<^verbatim>\<open>let items = activeItems\<close> is the same array, not a copy; with no
  filter set that very array is returned.
\<close>

definition h_filtered ::
  "(jsstring \<Rightarrow> jsstring) \<Rightarrow> store \<Rightarrow> addr \<Rightarrow> jsstring \<Rightarrow> jsstring \<Rightarrow> store \<times> addr" where
  "h_filtered toLowerCase h active activeCategory search =
     (let items = active;
          (h, items) = (if activeCategory \<noteq> TUMU
                        then (let ac = normalize toLowerCase (Some activeCategory)
                              in alloc h (filter (\<lambda>x. normalize toLowerCase (Some (category x)) = ac) (h ! items)))
                        else (h, items));
          q = normalize toLowerCase (Some search);
          (h, items) = (if q \<noteq> []
                        then alloc h (filter (\<lambda>x. let n = normalize toLowerCase (Some (name x));
                                                      c = normalize toLowerCase (Some (category x))
                                                  in includesStr n q \<or> includesStr c q) (h ! items))
                        else (h, items))
      in (h, items))"

text \<open>
  The first loop of \<^verbatim>\<open>grouped\<close>: the map holds addresses;
  \<^verbatim>\<open>map.set(key, [])\<close> allocates, \<^verbatim>\<open>push\<close> writes in place.
\<close>

definition h_groupStep :: "store \<times> addr jsmap \<Rightarrow> MenuItem \<Rightarrow> store \<times> addr jsmap" where
  "h_groupStep s item =
     (case s of (h, m) \<Rightarrow>
        (let key = groupKey item;
             (h, m) = (if \<not> map_has m key
                       then (case alloc h [] of (h', a) \<Rightarrow> (h', map_set m key a))
                       else (h, m))
         in case map_get m key of
              Some a \<Rightarrow> (h[a := h ! a @ [item]], m)
            | None \<Rightarrow> (h, m)))"

text \<open>The second loop: \<^verbatim>\<open>items.sort(...)\<close> in place, \<^verbatim>\<open>map.set(k, items)\<close>.\<close>

definition h_sortStep ::
  "(jsstring \<Rightarrow> jsstring \<Rightarrow> int) \<Rightarrow> store \<times> addr jsmap \<Rightarrow> jsstring \<times> addr \<Rightarrow> store \<times> addr jsmap" where
  "h_sortStep cmp s e =
     (case s of (h, m) \<Rightarrow>
        (case e of (k, a) \<Rightarrow> (h[a := js_sort (byName cmp) (h ! a)], map_set m k a)))"

text \<open>
  \<^verbatim>\<open>grouped\<close>. The first loop runs over the array at \<open>flt\<close> as it is on entry, and
  the second over the entries of the map as they are on its entry: neither loop writes to
  what it iterates over (the array at \<open>flt\<close> was allocated before the groups, and
  the last theorem of this theory shows that it is left as it was; the map only has keys
  set again that it already has). The result pairs each key with the
  address of its group.
\<close>

definition h_grouped ::
  "(jsstring \<Rightarrow> jsstring \<Rightarrow> int) \<Rightarrow> store \<Rightarrow> addr \<Rightarrow> store \<times> (jsstring \<times> addr) list" where
  "h_grouped cmp h flt =
     (let (h, m) = foldl h_groupStep (h, []) (h ! flt);
          (h, m) = foldl (h_sortStep cmp) (h, m) m;
          ordered = map (\<lambda>c. (c, the (map_get m c))) (filter (\<lambda>c. map_has m c) CATEGORY_ORDER);
          extras = map (\<lambda>k. (k, the (map_get m k)))
                     (js_sort cmp (filter (\<lambda>k. k \<notin> set CATEGORY_ORDER) (map_keys m)))
      in (h, ordered @ extras))"

text \<open>
  The public view as a whole: the three memoized values, each computed from the one
  before. It returns the addresses of \<^verbatim>\<open>activeItems\<close> and \<^verbatim>\<open>filtered\<close> and the
  groups.
\<close>

definition h_publicView ::
  "(jsstring \<Rightarrow> jsstring) \<Rightarrow> (jsstring \<Rightarrow> jsstring \<Rightarrow> int) \<Rightarrow> store \<Rightarrow> addr \<Rightarrow> jsstring \<Rightarrow>
   jsstring \<Rightarrow> store \<times> addr \<times> addr \<times> (jsstring \<times> addr) list" where
  "h_publicView toLowerCase cmp h all activeCategory search =
     (let (h, active) = h_activeItems h all;
          (h, flt) = h_filtered toLowerCase h active activeCategory search;
          (h, groups) = h_grouped cmp h flt
      in (h, active, flt, groups))"

text \<open>
  The admin view: \<^verbatim>\<open>let items = [...menu]\<close> is a new array, each filter another,
  and the sort writes into the last of them.
\<close>

definition h_filteredMenu ::
  "(jsstring \<Rightarrow> jsstring) \<Rightarrow> (jsstring \<Rightarrow> jsstring \<Rightarrow> int) \<Rightarrow> store \<Rightarrow> addr \<Rightarrow> jsstring \<Rightarrow>
   jsstring \<Rightarrow> SortMode \<Rightarrow> store \<times> addr" where
  "h_filteredMenu toLowerCase cmp h menu search categoryFilter sortMode =
     (let (h, items) = alloc h (h ! menu);
          q = normalize toLowerCase (Some search);
          (h, items) = (if q \<noteq> []
                        then alloc h (filter (\<lambda>x. let n = normalize toLowerCase (Some (name x));
                                                      c = normalize toLowerCase (Some (category x))
                                                  in includesStr n q \<or> includesStr c q) (h ! items))
                        else (h, items));
          (h, items) = (if categoryFilter \<noteq> TUMU
                        then (let cf = normalize toLowerCase (Some categoryFilter)
                              in alloc h (filter (\<lambda>x. normalize toLowerCase (Some (category x)) = cf) (h ! items)))
                        else (h, items));
          h = (if sortMode = price_asc
               then h[items := js_sort (\<lambda>a b. priceDiff (price a) (price b)) (h ! items)]
               else if sortMode = price_desc
               then h[items := js_sort (\<lambda>a b. priceDiff (price b) (price a)) (h ! items)]
               else if sortMode = name_asc
               then h[items := js_sort (\<lambda>a b. cmp (name a) (name b)) (h ! items)]
               else h[items := js_sort (defaultCompare cmp) (h ! items)])
      in (h, items))"

text \<open>
  \<open>frame h0 h\<close>: the store \<open>h\<close> extends \<open>h0\<close> and every array of \<open>h0\<close> is in \<open>h\<close>
  as it was. \<open>readGroups h g\<close>: the groups, read from the store.
\<close>

definition frame :: "store \<Rightarrow> store \<Rightarrow> bool" where
  "frame h0 h = (length h0 \<le> length h \<and> (\<forall>a < length h0. h ! a = h0 ! a))"

definition readGroups :: "store \<Rightarrow> (jsstring \<times> addr) list \<Rightarrow> (jsstring \<times> MenuItem list) list" where
  "readGroups h g = map (\<lambda>e. (fst e, h ! snd e)) g"

text \<open>
  What the loops of \<^verbatim>\<open>grouped\<close> maintain: the source store is framed, and the map's
  addresses are distinct arrays allocated since.
\<close>

definition groupsFresh :: "store \<Rightarrow> store \<Rightarrow> addr jsmap \<Rightarrow> bool" where
  "groupsFresh h0 h m =
     (frame h0 h \<and> distinct (map snd m) \<and> (\<forall>a \<in> set (map snd m). length h0 \<le> a \<and> a < length h))"

section \<open>The mutations of the admin view\<close>

text \<open>
  \<^verbatim>\<open>validateItem(n, c, p)\<close> returns the message of the first failed check, or
  \<^verbatim>\<open>null\<close>. The four messages are Turkish sentences (``the product name cannot be
  empty'', ``the category cannot be empty'', ``the price must be a number'', ``the price
  cannot be negative''), written with their code units beyond ASCII.
\<close>

definition MSG_NAME :: jsstring where
  "MSG_NAME = [0xDC] @ str ''r'' @ [0xFC] @ str ''n ad'' @ [0x131] @ str '' bo'' @ [0x15F] @
              str '' olamaz.''"

definition MSG_CATEGORY :: jsstring where
  "MSG_CATEGORY = str ''Kategori bo'' @ [0x15F] @ str '' olamaz.''"

definition MSG_NUMBER :: jsstring where
  "MSG_NUMBER = str ''Fiyat say'' @ [0x131] @ str '' olmal'' @ [0x131] @ str ''.''"

definition MSG_NEGATIVE :: jsstring where
  "MSG_NEGATIVE = str ''Fiyat negatif olamaz.''"

definition validateItem :: "jsstring \<Rightarrow> jsstring \<Rightarrow> number \<Rightarrow> jsstring option" where
  "validateItem n c p =
     (if trim n = [] then Some MSG_NAME
      else if trim c = [] then Some MSG_CATEGORY
      else if \<not> isFinite p then Some MSG_NUMBER
      else if ltZero p then Some MSG_NEGATIVE
      else None)"

text \<open>
  The component's state: the fetched list, the admin key, the fields of the create form
  (\<^verbatim>\<open>name\<close>, \<^verbatim>\<open>price\<close>, ... in the source; \<open>form_name\<close>, \<open>form_price\<close>, ...
  here, since the item has fields of these names) and those of the edit dialog.
\<close>

record AdminState =
  menu :: "MenuItem list"
  loading :: bool
  adminKey :: jsstring
  form_name :: jsstring
  form_price :: number
  form_category :: jsstring
  form_isAvailable :: bool
  form_imageUrl :: jsstring
  form_description :: jsstring
  editOpen :: bool
  editing :: "MenuItem option"
  editName :: jsstring
  editPrice :: number
  editCategory :: jsstring
  editAvailable :: bool
  editImageUrl :: jsstring
  editDescription :: jsstring

text \<open>
  The body of a \<^verbatim>\<open>POST\<close> or \<^verbatim>\<open>PUT\<close>, as handed to \<^verbatim>\<open>JSON.stringify\<close>, and
  the four requests the page sends. The admin key travels in the \<^verbatim>\<open>X-Admin-Key\<close>
  header; the path is \<^verbatim>\<open>/api/Menu\<close>, with the id appended for \<^verbatim>\<open>PUT\<close> and
  \<^verbatim>\<open>DELETE\<close>.
\<close>

record Payload =
  body_id :: "int option"
  body_name :: jsstring
  body_price :: number
  body_category :: jsstring
  body_isAvailable :: bool
  body_imageUrl :: "jsstring option"
  body_description :: "jsstring option"

datatype request =
    GetMenu
  | PostMenu jsstring Payload
  | PutMenu int jsstring Payload
  | DeleteMenu int jsstring

text \<open>
  What the server answers: \<^verbatim>\<open>res.ok\<close>, \<^verbatim>\<open>res.status\<close>, the outcome of
  \<^verbatim>\<open>res.text()\<close> (\<open>None\<close> when it rejects) and the outcome of
  \<^verbatim>\<open>res.json()\<close>. The network is a function from requests to answers, \<open>None\<close> when
  \<^verbatim>\<open>fetch\<close> itself rejects.
\<close>

datatype json = JsonArray "MenuItem list" | JsonOther | JsonError

record response =
  ok :: bool
  status :: nat
  text_body :: "jsstring option"
  json_body :: json

type_synonym network = "request \<Rightarrow> response option"

text \<open>
  What a handler does to the outside, in order: a blocking \<^verbatim>\<open>alert\<close>, or a
  \<^verbatim>\<open>fetch\<close>. A handler is an \<^verbatim>\<open>async\<close> function: it returns, or its promise
  rejects (an exception that nothing catches).
\<close>

datatype effect = Alert jsstring | Fetch request

datatype completion = Returned | Rejected

type_synonym outcome = "effect list \<times> AdminState \<times> completion"

text \<open>A number in a template literal: its decimal digits (\<^verbatim>\<open>res.status\<close> is a natural number).\<close>

fun decimal :: "nat \<Rightarrow> jsstring" where
  "decimal n = (if n < 10 then [0x30 + n] else decimal (n div 10) @ [0x30 + n mod 10])"

declare decimal.simps [simp del]

text \<open>\<^verbatim>\<open>s.trim() || null\<close>\<close>

definition trimOrNull :: "jsstring \<Rightarrow> jsstring option" where
  "trimOrNull s = (if trim s = [] then None else Some (trim s))"

text \<open>
  The alert after a refused request: a headline, \<^verbatim>\<open>"\nStatus: "\<close>, the status, a
  line feed, and the body text (\<^verbatim>\<open>res.text().catch(() => "")\<close>).
\<close>

definition failureMessage :: "jsstring \<Rightarrow> response \<Rightarrow> jsstring" where
  "failureMessage headline res =
     headline @ [0x0A] @ str ''Status: '' @ decimal (status res) @ [0x0A] @
     orElse (text_body res) []"

definition ADD_FAILED :: jsstring where
  "ADD_FAILED = str ''Ekleme ba'' @ [0x15F] @ str ''ar'' @ [0x131] @ str ''s'' @ [0x131] @ str ''z!''"

definition UPDATE_FAILED :: jsstring where
  "UPDATE_FAILED = str ''G'' @ [0xFC] @ str ''ncelleme ba'' @ [0x15F] @ str ''ar'' @ [0x131] @
                   str ''s'' @ [0x131] @ str ''z!''"

text \<open>
  \<^verbatim>\<open>load\<close>: one \<^verbatim>\<open>GET\<close>; the list is replaced by the array received (by the empty
  list when the answer is no array). \<^verbatim>\<open>finally\<close> resets \<^verbatim>\<open>loading\<close> on every
  path; there is no \<^verbatim>\<open>catch\<close>.
\<close>

definition load :: "AdminState \<Rightarrow> network \<Rightarrow> outcome" where
  "load st net =
     (case net GetMenu of
        None \<Rightarrow> ([Fetch GetMenu], st\<lparr>loading := False\<rparr>, Rejected)
      | Some res \<Rightarrow>
          (case json_body res of
             JsonError \<Rightarrow> ([Fetch GetMenu], st\<lparr>loading := False\<rparr>, Rejected)
           | JsonArray data \<Rightarrow> ([Fetch GetMenu], st\<lparr>menu := data, loading := False\<rparr>, Returned)
           | JsonOther \<Rightarrow> ([Fetch GetMenu], st\<lparr>menu := [], loading := False\<rparr>, Returned)))"

text \<open>
  \<^verbatim>\<open>createItem\<close>: \<^verbatim>\<open>const err = validateItem(name, category, price);\<close>
  \<^verbatim>\<open>if (err) return alert(err);\<close> and only then the \<^verbatim>\<open>POST\<close>. Every message is a
  non-empty string, hence truthy.
\<close>

definition createItem :: "AdminState \<Rightarrow> network \<Rightarrow> outcome" where
  "createItem st net =
     (case validateItem (form_name st) (form_category st) (form_price st) of
        Some err \<Rightarrow> ([Alert err], st, Returned)
      | None \<Rightarrow>
          (let req = PostMenu (adminKey st)
                 \<lparr>body_id = None, body_name = trim (form_name st), body_price = form_price st,
                  body_category = trim (form_category st),
                  body_isAvailable = form_isAvailable st,
                  body_imageUrl = trimOrNull (form_imageUrl st),
                  body_description = trimOrNull (form_description st)\<rparr>
           in case net req of
                None \<Rightarrow> ([Fetch req], st, Rejected)
              | Some res \<Rightarrow>
                  if \<not> ok res then ([Fetch req, Alert (failureMessage ADD_FAILED res)], st, Returned)
                  else (let st' = st\<lparr>form_name := [], form_price := Finite 0, form_category := [],
                                     form_isAvailable := True, form_imageUrl := [],
                                     form_description := []\<rparr>
                        in case load st' net of (effs, st'', c) \<Rightarrow> (Fetch req # effs, st'', c))))"

text \<open>
  \<^verbatim>\<open>saveEdit\<close>: nothing happens without an item under edit; then the same validation
  and, only after it, the \<^verbatim>\<open>PUT\<close> of the whole record.
\<close>

definition saveEdit :: "AdminState \<Rightarrow> network \<Rightarrow> outcome" where
  "saveEdit st net =
     (case editing st of
        None \<Rightarrow> ([], st, Returned)
      | Some item \<Rightarrow>
          (case validateItem (editName st) (editCategory st) (editPrice st) of
             Some err \<Rightarrow> ([Alert err], st, Returned)
           | None \<Rightarrow>
               (let req = PutMenu (item_id item) (adminKey st)
                      \<lparr>body_id = Some (item_id item), body_name = trim (editName st),
                       body_price = editPrice st, body_category = trim (editCategory st),
                       body_isAvailable = editAvailable st,
                       body_imageUrl = trimOrNull (editImageUrl st),
                       body_description = trimOrNull (editDescription st)\<rparr>
                in case net req of
                     None \<Rightarrow> ([Fetch req], st, Rejected)
                   | Some res \<Rightarrow>
                       if \<not> ok res
                       then ([Fetch req, Alert (failureMessage UPDATE_FAILED res)], st, Returned)
                       else (let st' = st\<lparr>editOpen := False, editing := None\<rparr>
                             in case load st' net of
                                  (effs, st'', c) \<Rightarrow> (Fetch req # effs, st'', c)))))"

section \<open>Consistent comparators\<close>

text \<open>
  The language calls a comparator consistent when its sign is antisymmetric and its order
  is transitive; only then is the result of a sort determined. \<open>lexCmp\<close> is the
  idiom \<^verbatim>\<open>if (c !== 0) return c; return d;\<close> and \<open>availCmp\<close> the first
  test of the default comparator, both named to state and prove its consistency.
\<close>

definition consistent :: "('a \<Rightarrow> 'a \<Rightarrow> int) \<Rightarrow> bool" where
  "consistent cmp =
     ((\<forall>a b. (cmp a b < 0) = (0 < cmp b a)) \<and>
      (\<forall>a b c. cmp a b \<le> 0 \<and> cmp b c \<le> 0 \<longrightarrow> cmp a c \<le> 0))"

definition lexCmp :: "('a \<Rightarrow> 'a \<Rightarrow> int) \<Rightarrow> ('a \<Rightarrow> 'a \<Rightarrow> int) \<Rightarrow> 'a \<Rightarrow> 'a \<Rightarrow> int" where
  "lexCmp f g a b = (if f a b \<noteq> 0 then f a b else g a b)"

definition availCmp :: "MenuItem \<Rightarrow> MenuItem \<Rightarrow> int" where
  "availCmp a b = (if isAvailable a \<noteq> isAvailable b then (if isAvailable a then - 1 else 1) else 0)"

section \<open>A concrete lower-casing for the examples\<close>

text \<open>
  Where an example needs a concrete lower-casing, \<open>latinLowerCase\<close> stands for
  \<^verbatim>\<open>toLowerCase\<close> on strings of Basic Latin, Latin-1 Supplement and Latin Extended-A
  (U+0000 to U+017F), which hold the Turkish alphabet and where the Unicode mapping looks
  at one character at a time. U+0130 (capital dotted I) becomes two code units, and
  capital I becomes the dotted i: the mapping is the language-neutral one, not the
  Turkish one. Outside that range \<open>latinLowerCase\<close> is \<^emph>\<open>not\<close> the platform's
  function (it leaves the code unit as it is); no example leaves the range, and no general
  theorem depends on it.
\<close>

definition latinLowerUnit :: "nat \<Rightarrow> jsstring" where
  "latinLowerUnit c =
     (if 0x41 \<le> c \<and> c \<le> 0x5A then [c + 0x20]
      else if 0xC0 \<le> c \<and> c \<le> 0xDE \<and> c \<noteq> 0xD7 then [c + 0x20]
      else if c = 0x130 then [0x69, 0x307]
      else if c = 0x178 then [0xFF]
      else if (0x100 \<le> c \<and> c \<le> 0x137 \<or> 0x14A \<le> c \<and> c \<le> 0x177) \<and> even c then [c + 1]
      else if (0x139 \<le> c \<and> c \<le> 0x148 \<or> 0x179 \<le> c \<and> c \<le> 0x17E) \<and> odd c then [c + 1]
      else [c])"

definition latinLowerCase :: "jsstring \<Rightarrow> jsstring" where
  "latinLowerCase s = concat (map latinLowerUnit s)"

text \<open>The code units that \<open>latinLowerUnit\<close> leaves alone: no branch of its table applies.\<close>

definition isLower :: "nat \<Rightarrow> bool" where
  "isLower u =
     (\<not> (0x41 \<le> u \<and> u \<le> 0x5A) \<and> \<not> (0xC0 \<le> u \<and> u \<le> 0xDE \<and> u \<noteq> 0xD7) \<and>
      u \<noteq> 0x130 \<and> u \<noteq> 0x178 \<and>
      \<not> ((0x100 \<le> u \<and> u \<le> 0x137 \<or> 0x14A \<le> u \<and> u \<le> 0x177) \<and> even u) \<and>
      \<not> ((0x139 \<le> u \<and> u \<le> 0x148 \<or> 0x179 \<le> u \<and> u \<le> 0x17E) \<and> odd u))"

section \<open>A concrete collation for the examples\<close>

text \<open>
  Where an example needs a concrete comparison, \<open>trCompare\<close> stands for
  \<^verbatim>\<open>localeCompare(b, "tr")\<close> on strings over the Turkish alphabet, the digits
  and ASCII space and punctuation. As the platform's collation does, it compares first
  the letters regardless of case, in the order of the Turkish alphabet (spaces and
  punctuation before digits, digits before letters), and only when these agree the case,
  lower case first: \<^verbatim>\<open>"b" < "B" < "c"\<close>. The general theorems do not depend on
  it: they hold for every consistent comparison.
\<close>

fun lexCompare :: "nat list \<Rightarrow> nat list \<Rightarrow> int" where
  "lexCompare [] [] = 0"
| "lexCompare [] (y # ys) = - 1"
| "lexCompare (x # xs) [] = 1"
| "lexCompare (x # xs) (y # ys) =
     (if x < y then - 1 else if y < x then 1 else lexCompare xs ys)"

definition trLower :: jsstring where
  "trLower = str ''abc'' @ [0xE7] @ str ''defg'' @ [0x11F] @ str ''h'' @ [0x131] @
             str ''ijklmno'' @ [0xF6] @ str ''pqrs'' @ [0x15F] @ str ''tu'' @ [0xFC] @ str ''vwxyz''"

definition trUpper :: jsstring where
  "trUpper = str ''ABC'' @ [0xC7] @ str ''DEFG'' @ [0x11E] @ str ''HI'' @ [0x130] @
             str ''JKLMNO'' @ [0xD6] @ str ''PQRS'' @ [0x15E] @ str ''TU'' @ [0xDC] @ str ''VWXYZ''"

fun indexOf :: "nat list \<Rightarrow> nat \<Rightarrow> nat option" where
  "indexOf [] c = None"
| "indexOf (x # xs) c = (if x = c then Some 0 else map_option Suc (indexOf xs c))"

definition trPrimary :: "nat \<Rightarrow> nat" where
  "trPrimary c =
     (case indexOf trLower c of
        Some i \<Rightarrow> 0x20000 + i
      | None \<Rightarrow>
          (case indexOf trUpper c of
             Some i \<Rightarrow> 0x20000 + i
           | None \<Rightarrow> if 0x30 \<le> c \<and> c \<le> 0x39 then 0x10000 + c else c))"

definition trTertiary :: "nat \<Rightarrow> nat" where
  "trTertiary c = (if c \<in> set trUpper then 1 else 0)"

text \<open>The first level alone: the comparison that ignores letter case.\<close>

definition trPrimaryCompare :: "jsstring \<Rightarrow> jsstring \<Rightarrow> int" where
  "trPrimaryCompare a b = lexCompare (map trPrimary a) (map trPrimary b)"

definition trCompare :: "jsstring \<Rightarrow> jsstring \<Rightarrow> int" where
  "trCompare a b =
     (let p = lexCompare (map trPrimary a) (map trPrimary b)
      in if p \<noteq> 0 then p else lexCompare (map trTertiary a) (map trTertiary b))"

section \<open>Example items\<close>

text \<open>The items of the examples: two available ones and one that is switched off.\<close>

definition burgerDeluxe :: MenuItem where
  "burgerDeluxe = \<lparr>item_id = 1, name = str ''Burger Deluxe'', price = Finite 250,
     category = str ''Burger'', isAvailable = True, imageUrl = None, description = None\<rparr>"

definition toastPlain :: MenuItem where
  "toastPlain = \<lparr>item_id = 2, name = str ''Cheese Toast'', price = Finite 120,
     category = str ''Toast'', isAvailable = True, imageUrl = None, description = None\<rparr>"

definition ayranOff :: MenuItem where
  "ayranOff = \<lparr>item_id = 3, name = str ''Ayran'', price = Finite 15,
     category = str ''Drinks'', isAvailable = False, imageUrl = None, description = None\<rparr>"

text \<open>Two available items whose categories differ in letter case only.\<close>

definition cheeseBurger :: MenuItem where
  "cheeseBurger = \<lparr>item_id = 4, name = str ''Cheeseburger'', price = Finite 200,
     category = str ''Burger'', isAvailable = True, imageUrl = None, description = None\<rparr>"

definition hamBurger :: MenuItem where
  "hamBurger = \<lparr>item_id = 5, name = str ''Hamburger'', price = Finite 180,
     category = str ''burger'', isAvailable = True, imageUrl = None, description = None\<rparr>"

text \<open>
  A blank category and a padded one, and a menu of six available items in five groups.
\<close>

definition simit :: MenuItem where
  "simit = \<lparr>item_id = 6, name = str ''Simit'', price = Finite 25,
     category = str ''  '', isAvailable = True, imageUrl = None, description = None\<rparr>"

definition tostKasar :: MenuItem where
  "tostKasar = \<lparr>item_id = 7, name = str ''Kasar Tost'', price = Finite 110,
     category = str '' Tost '', isAvailable = True, imageUrl = None, description = None\<rparr>"

definition paddedBurger :: MenuItem where
  "paddedBurger = \<lparr>item_id = 8, name = str ''Double Burger'', price = Finite 260,
     category = str ''  Burger '', isAvailable = True, imageUrl = None, description = None\<rparr>"

definition caseMenu :: "MenuItem list" where
  "caseMenu = [paddedBurger, toastPlain, hamBurger]"

text \<open>
  The first preferred category in capitals, and as configured (with the dotless i,
  U+0131).
\<close>

definition kahvaltiUpper :: MenuItem where
  "kahvaltiUpper = \<lparr>item_id = 9, name = str ''Serpme'', price = Finite 400,
     category = str ''KAHVALTI'', isAvailable = True, imageUrl = None, description = None\<rparr>"

definition kahvaltiTitle :: MenuItem where
  "kahvaltiTitle = \<lparr>item_id = 10, name = str ''Menemen'', price = Finite 150,
     category = str ''Kahvalt'' @ [0x131], isAvailable = True, imageUrl = None,
     description = None\<rparr>"

definition exampleMenu :: "MenuItem list" where
  "exampleMenu = [toastPlain, cheeseBurger, simit, hamBurger, tostKasar, burgerDeluxe]"

text \<open>An example state: the create form and the edit dialog both hold a price of -5.\<close>

definition exampleState :: AdminState where
  "exampleState =
     \<lparr>menu = [burgerDeluxe], loading = False, adminKey = str ''secret'',
      form_name = str ''Ayran'', form_price = Finite (- 5), form_category = str ''Drinks'',
      form_isAvailable = True, form_imageUrl = [], form_description = [],
      editOpen = True, editing = Some burgerDeluxe,
      editName = str ''Burger Deluxe'', editPrice = Finite (- 5), editCategory = str ''Burger'',
      editAvailable = True, editImageUrl = [], editDescription = []\<rparr>"

text \<open>A network on which every request is refused with status 500.\<close>

definition refusing :: network where
  "refusing req = Some \<lparr>ok = False, status = 500, text_body = None, json_body = JsonError\<rparr>"

text \<open>A store that holds one array, the fetched list, at address 0.\<close>

definition exampleStore :: store where
  "exampleStore = [[burgerDeluxe, ayranOff, toastPlain]]"

section \<open>Properties of trimming\<close>

lemma dropWhile_hd: "dropWhile P xs \<noteq> [] \<Longrightarrow> \<not> P (hd (dropWhile P xs))"
  by (metis hd_dropWhile)

lemma trimmed_trim: "trimmed (trim s)"
proof (cases "trim s = []")
  case True
  then show ?thesis by (simp add: trimmed_def)
next
  case False
  let ?a = "dropWhile isWhiteSpace s"
  let ?b = "dropWhile isWhiteSpace (rev ?a)"
  from False have b: "?b \<noteq> []" by (simp add: trim_def)
  have a: "?a \<noteq> []"
  proof
    assume "?a = []"
    then have "?b = []" by (simp only: rev.simps dropWhile.simps)
    with b show False by simp
  qed
  have l: "\<not> isWhiteSpace (last (trim s))"
    using b by (simp add: trim_def last_rev dropWhile_hd)
  obtain n where n: "?b = drop n (rev ?a)"
    by (metis dropWhile_eq_drop)
  from b n have nlt: "n < length ?a" by auto
  have "rev ?b = take (length ?a - n) ?a"
    using n by (simp add: rev_drop)
  moreover have "0 < length ?a - n" using nlt by simp
  ultimately have "hd (rev ?b) = hd ?a"
    by (metis hd_take)
  then have "\<not> isWhiteSpace (hd (trim s))"
    using a by (simp add: trim_def dropWhile_hd)
  with l show ?thesis by (simp add: trimmed_def)
qed

lemma trim_trimmed: "trimmed s \<Longrightarrow> trim s = s"
proof (cases s)
  case Nil
  then show ?thesis by (simp add: trim_def)
next
  case (Cons c cs)
  assume "trimmed s"
  with Cons have h: "\<not> isWhiteSpace (hd s)" and l: "\<not> isWhiteSpace (last s)"
    by (simp_all add: trimmed_def)
  from h Cons have 1: "dropWhile isWhiteSpace s = s" by simp
  from Cons have ne: "rev s \<noteq> []" by simp
  have "hd (rev s) = last s"
    by (rule hd_rev)
  with l have "\<not> isWhiteSpace (hd (rev s))" by simp
  with ne have "dropWhile isWhiteSpace (rev s) = rev s"
    by (cases "rev s") simp_all
  with 1 show ?thesis by (simp add: trim_def)
qed

lemma trim_decompose:
  "\<exists>p r. s = p @ trim s @ r \<and> (\<forall>c \<in> set p. isWhiteSpace c) \<and> (\<forall>c \<in> set r. isWhiteSpace c)"
proof -
  let ?p = "takeWhile isWhiteSpace s"
  let ?a = "dropWhile isWhiteSpace s"
  let ?r = "rev (takeWhile isWhiteSpace (rev ?a))"
  have "trim s @ ?r = rev (takeWhile isWhiteSpace (rev ?a) @ dropWhile isWhiteSpace (rev ?a))"
    by (simp only: trim_def rev_append)
  also have "\<dots> = rev (rev ?a)"
    by (simp only: takeWhile_dropWhile_id)
  also have "\<dots> = ?a"
    by (simp only: rev_rev_ident)
  finally have a: "?a = trim s @ ?r"
    by (rule sym)
  have "s = ?p @ ?a"
    by simp
  with a have 1: "s = ?p @ trim s @ ?r"
    by simp
  have 2: "\<forall>c \<in> set ?p. isWhiteSpace c"
    by (auto dest: set_takeWhileD)
  have 3: "\<forall>c \<in> set ?r. isWhiteSpace c"
    by (auto dest: set_takeWhileD)
  from 1 2 3 show ?thesis
    by blast
qed

section \<open>Properties of normalization\<close>

lemma normalize_Some: "normalize lc (Some s) = lc (trim s)"
  by (simp add: normalize_def orElse_def trim_def)

lemma normalize_None: "normalize lc None = lc []"
  by (simp add: normalize_def orElse_def trim_def)

lemma normalize_empty: "lc [] = [] \<Longrightarrow> normalize lc (Some []) = []"
  by (simp add: normalize_Some trim_def)

lemma lowerCasing_empty: "lowerCasing lc \<Longrightarrow> lc [] = []"
  by (simp add: lowerCasing_def)

lemma lowerCasing_idem: "lowerCasing lc \<Longrightarrow> lc (lc s) = lc s"
  by (simp add: lowerCasing_def)

lemma lowerCasing_trimmed: "lowerCasing lc \<Longrightarrow> trimmed s \<Longrightarrow> trimmed (lc s)"
  by (simp add: lowerCasing_def)

lemma trimmed_normalize: "lowerCasing lc \<Longrightarrow> trimmed (normalize lc s)"
  by (simp add: normalize_def lowerCasing_trimmed trimmed_trim)

text \<open>
  C7. Normalization is a total function. For every lower-casing \<open>lc\<close> that keeps the
  empty string, is idempotent and puts no white space at the ends of a trimmed string (as
  the platform's does): an absent argument gives the empty string; on every string
  normalization is \<^verbatim>\<open>trim\<close> followed by the lower-casing, where \<^verbatim>\<open>trim\<close>
  removes a run of white space at each end and leaves none there; and normalizing a
  normalized string returns it unchanged.
\<close>

theorem normalize_total_idempotent:
  assumes lc: "lowerCasing lc"
  shows "normalize lc None = [] \<and>
         normalize lc (Some s) = lc (trim s) \<and>
         (\<exists>p r. s = p @ trim s @ r \<and> (\<forall>c \<in> set p. isWhiteSpace c) \<and>
                (\<forall>c \<in> set r. isWhiteSpace c)) \<and>
         trimmed (trim s) \<and>
         normalize lc (Some (normalize lc x)) = normalize lc x"
proof -
  have 1: "normalize lc None = []"
    using lc by (simp add: normalize_None lowerCasing_empty)
  have "trim (normalize lc x) = normalize lc x"
    using lc by (intro trim_trimmed trimmed_normalize)
  then have "normalize lc (Some (normalize lc x)) = lc (normalize lc x)"
    by (simp add: normalize_Some)
  also have "\<dots> = normalize lc x"
    using lc by (simp add: normalize_def lowerCasing_idem)
  finally have 2: "normalize lc (Some (normalize lc x)) = normalize lc x" .
  show ?thesis
    by (intro conjI 1 2 normalize_Some trim_decompose trimmed_trim)
qed

section \<open>The example lower-casing\<close>

lemma latinLowerUnit_nonempty: "latinLowerUnit c \<noteq> []"
  by (simp add: latinLowerUnit_def)

lemma latinLowerUnit_isLower: "isLower u \<Longrightarrow> latinLowerUnit u = [u]"
  unfolding isLower_def latinLowerUnit_def by simp

lemma latinLowerUnit_out: "u \<in> set (latinLowerUnit c) \<Longrightarrow> isLower u"
  unfolding latinLowerUnit_def isLower_def
  by (simp split: if_splits; presburger)

lemma latinLowerUnit_fixed: "u \<in> set (latinLowerUnit c) \<Longrightarrow> latinLowerUnit u = [u]"
  by (rule latinLowerUnit_isLower) (rule latinLowerUnit_out)

lemma latinLowerUnit_space: "\<not> isWhiteSpace c \<Longrightarrow> u \<in> set (latinLowerUnit c) \<Longrightarrow> \<not> isWhiteSpace u"
  unfolding latinLowerUnit_def isWhiteSpace_def
  by (simp split: if_splits; presburger)

lemma latinLowerCase_fixed: "(\<And>u. u \<in> set s \<Longrightarrow> latinLowerUnit u = [u]) \<Longrightarrow> latinLowerCase s = s"
  by (induction s) (simp_all add: latinLowerCase_def)

lemma latinLowerCase_idem: "latinLowerCase (latinLowerCase s) = latinLowerCase s"
  by (rule latinLowerCase_fixed) (auto simp: latinLowerCase_def dest: latinLowerUnit_fixed)

lemma latinLowerCase_Nil_iff: "latinLowerCase s = [] \<longleftrightarrow> s = []"
  by (cases s) (simp_all add: latinLowerCase_def latinLowerUnit_nonempty)

lemma hd_latinLowerCase: "s \<noteq> [] \<Longrightarrow> hd (latinLowerCase s) \<in> set (latinLowerUnit (hd s))"
  by (cases s) (simp_all add: latinLowerCase_def latinLowerUnit_nonempty)

lemma last_latinLowerCase: "s \<noteq> [] \<Longrightarrow> last (latinLowerCase s) \<in> set (latinLowerUnit (last s))"
proof (induction s rule: rev_induct)
  case Nil
  then show ?case by simp
next
  case (snoc c cs)
  then show ?case by (simp add: latinLowerCase_def latinLowerUnit_nonempty)
qed

lemma trimmed_latinLowerCase: "trimmed s \<Longrightarrow> trimmed (latinLowerCase s)"
proof (cases "s = []")
  case True
  then show ?thesis by (simp add: trimmed_def latinLowerCase_def)
next
  case False
  assume "trimmed s"
  with False have h: "\<not> isWhiteSpace (hd s)" and l: "\<not> isWhiteSpace (last s)"
    by (simp_all add: trimmed_def)
  from h hd_latinLowerCase [OF False] have "\<not> isWhiteSpace (hd (latinLowerCase s))"
    by (rule latinLowerUnit_space)
  moreover from l last_latinLowerCase [OF False] have "\<not> isWhiteSpace (last (latinLowerCase s))"
    by (rule latinLowerUnit_space)
  ultimately show ?thesis by (simp add: trimmed_def)
qed

lemma lowerCasing_latinLowerCase: "lowerCasing latinLowerCase"
  unfolding lowerCasing_def
  by (intro conjI allI impI latinLowerCase_idem trimmed_latinLowerCase)
    (simp_all add: latinLowerCase_def)

lemmas string_eval = str_def normalize_def orElse_def trim_def latinLowerCase_def latinLowerUnit_def
  isWhiteSpace_def TUMU_def

text \<open>
  Normalization at work: blanks at both ends go, capitals become small letters, and the
  result is a fixed point. Capital I becomes the dotted i, also in a Turkish word.
\<close>

theorem normalize_total_idempotent_witness:
  "lowerCasing latinLowerCase \<and>
   normalize latinLowerCase None = [] \<and>
   trim (str ''  BuRGer DeLuxe '') = str ''BuRGer DeLuxe'' \<and>
   normalize latinLowerCase (Some (str ''  BuRGer DeLuxe '')) = str ''burger deluxe'' \<and>
   normalize latinLowerCase (Some (str ''burger deluxe'')) = str ''burger deluxe'' \<and>
   normalize latinLowerCase (Some ([0x09] @ str ''T'' @ [0xDC] @ str ''M'' @ [0xDC, 0xA0])) =
     str ''t'' @ [0xFC] @ str ''m'' @ [0xFC] \<and>
   normalize latinLowerCase (Some (str ''KAHVALTI'')) = str ''kahvalti''"
proof -
  note t = normalize_total_idempotent [OF lowerCasing_latinLowerCase,
      where s = "str ''  BuRGer DeLuxe ''" and x = "Some (str ''  BuRGer DeLuxe '')"]
  from t have 0: "normalize latinLowerCase None = []"
    by (elim conjE)
  from t have idem: "normalize latinLowerCase (Some (normalize latinLowerCase (Some (str ''  BuRGer DeLuxe '')))) =
      normalize latinLowerCase (Some (str ''  BuRGer DeLuxe ''))"
    by (elim conjE)
  have 1: "trim (str ''  BuRGer DeLuxe '') = str ''BuRGer DeLuxe''"
    by (simp add: trim_def isWhiteSpace_def str_def)
  have 2: "normalize latinLowerCase (Some (str ''  BuRGer DeLuxe '')) = str ''burger deluxe''"
    by (simp add: string_eval)
  from idem have 3: "normalize latinLowerCase (Some (str ''burger deluxe'')) = str ''burger deluxe''"
    unfolding 2 .
  have 4: "normalize latinLowerCase (Some ([0x09] @ str ''T'' @ [0xDC] @ str ''M'' @ [0xDC, 0xA0])) =
     str ''t'' @ [0xFC] @ str ''m'' @ [0xFC]"
    by (simp add: string_eval)
  have 5: "normalize latinLowerCase (Some (str ''KAHVALTI'')) = str ''kahvalti''"
    by (simp add: string_eval)
  show ?thesis
    by (intro conjI lowerCasing_latinLowerCase 0 1 2 3 4 5)
qed

lemma latin_normalize_empty: "normalize latinLowerCase (Some []) = []"
  by (simp add: string_eval)

section \<open>Properties of comparators and of the sort\<close>

lemma consistent_sym: "consistent cmp \<Longrightarrow> (cmp a b < 0) = (0 < cmp b a)"
  by (simp add: consistent_def)

lemma consistent_trans: "consistent cmp \<Longrightarrow> cmp a b \<le> 0 \<Longrightarrow> cmp b c \<le> 0 \<Longrightarrow> cmp a c \<le> 0"
  unfolding consistent_def by blast

lemma consistent_total: "consistent cmp \<Longrightarrow> \<not> cmp a b \<le> 0 \<Longrightarrow> cmp b a \<le> 0"
  using consistent_sym [of cmp b a] by simp

lemma consistent_refl: "consistent cmp \<Longrightarrow> cmp a a = 0"
  using consistent_sym [of cmp a a] by arith

lemma consistent_zero: "consistent cmp \<Longrightarrow> (cmp a b = 0) = (cmp b a = 0)"
  using consistent_sym [of cmp a b] consistent_sym [of cmp b a] by auto

lemma consistent_less_le: "consistent cmp \<Longrightarrow> cmp a b < 0 \<Longrightarrow> cmp b c \<le> 0 \<Longrightarrow> cmp a c < 0"
proof (rule ccontr)
  assume c: "consistent cmp" and ab: "cmp a b < 0" and bc: "cmp b c \<le> 0" and n: "\<not> cmp a c < 0"
  from c ab bc have "cmp a c \<le> 0" using consistent_trans [of cmp a b c] by simp
  with n have "cmp a c = 0" by simp
  then have "cmp c a \<le> 0" using consistent_zero [OF c, of a c] by simp
  with bc have "cmp b a \<le> 0" using consistent_trans [OF c, of b c a] by simp
  with ab show False using consistent_sym [OF c, of a b] by simp
qed

lemma consistent_le_less: "consistent cmp \<Longrightarrow> cmp a b \<le> 0 \<Longrightarrow> cmp b c < 0 \<Longrightarrow> cmp a c < 0"
proof (rule ccontr)
  assume c: "consistent cmp" and ab: "cmp a b \<le> 0" and bc: "cmp b c < 0" and n: "\<not> cmp a c < 0"
  from c ab bc have "cmp a c \<le> 0" using consistent_trans [of cmp a b c] by simp
  with n have "cmp a c = 0" by simp
  then have "cmp c a \<le> 0" using consistent_zero [OF c, of a c] by simp
  with ab have "cmp c b \<le> 0" using consistent_trans [OF c, of c a b] by simp
  with bc show False using consistent_sym [OF c, of b c] by simp
qed

lemma consistent_eq_trans: "consistent cmp \<Longrightarrow> cmp a b = 0 \<Longrightarrow> cmp b c = 0 \<Longrightarrow> cmp a c = 0"
proof -
  assume c: "consistent cmp" and ab: "cmp a b = 0" and bc: "cmp b c = 0"
  have 1: "cmp a c \<le> 0" using consistent_trans [OF c, of a b c] ab bc by simp
  have "cmp c b = 0" "cmp b a = 0"
    using ab bc consistent_zero [OF c] by blast+
  then have "cmp c a \<le> 0" using consistent_trans [OF c, of c b a] by simp
  then have "\<not> cmp a c < 0" using consistent_sym [OF c, of a c] by simp
  with 1 show ?thesis by simp
qed

lemma consistent_lexCmp:
  assumes f: "consistent f" and g: "consistent g"
  shows "consistent (lexCmp f g)"
  unfolding consistent_def
proof (intro conjI allI impI)
  fix a b
  show "(lexCmp f g a b < 0) = (0 < lexCmp f g b a)"
    using consistent_sym [OF f, of a b] consistent_sym [OF f, of b a]
      consistent_sym [OF g, of a b] consistent_zero [OF f, of a b]
    by (auto simp: lexCmp_def)
next
  fix a b c
  assume h: "lexCmp f g a b \<le> 0 \<and> lexCmp f g b c \<le> 0"
  then have ab: "f a b < 0 \<or> (f a b = 0 \<and> g a b \<le> 0)"
    and bc: "f b c < 0 \<or> (f b c = 0 \<and> g b c \<le> 0)"
    by (auto simp: lexCmp_def split: if_splits)
  from ab bc consider "f a c < 0" | "f a c = 0 \<and> g a c \<le> 0"
    using consistent_less_le [OF f, of a b c] consistent_le_less [OF f, of a b c]
      consistent_eq_trans [OF f, of a b c] consistent_trans [OF g, of a b c]
    by fastforce
  then show "lexCmp f g a c \<le> 0"
    by cases (auto simp: lexCmp_def)
qed

lemma consistent_on: "consistent f \<Longrightarrow> consistent (\<lambda>a b. f (h a) (h b))"
  unfolding consistent_def by blast

lemma consistent_availCmp: "consistent availCmp"
  unfolding consistent_def availCmp_def by auto

lemma defaultCompare_lex:
  "defaultCompare cmp = lexCmp availCmp (lexCmp (\<lambda>a b. cmp (category a) (category b)) (\<lambda>a b. cmp (name a) (name b)))"
  by (intro ext) (auto simp: defaultCompare_def lexCmp_def availCmp_def Let_def)

lemma consistent_defaultCompare:
  assumes c: "consistent cmp"
  shows "consistent (defaultCompare cmp)"
proof -
  have 1: "consistent (\<lambda>a b. cmp (category a) (category b))"
    using c by (rule consistent_on)
  have 2: "consistent (\<lambda>a b. cmp (name a) (name b))"
    using c by (rule consistent_on)
  show ?thesis
    unfolding defaultCompare_lex
    by (rule consistent_lexCmp [OF consistent_availCmp consistent_lexCmp [OF 1 2]])
qed

lemma mset_js_insert: "mset (js_insert cmp x ys) = add_mset x (mset ys)"
  by (induction ys) simp_all

lemma mset_js_sort: "mset (js_sort cmp xs) = mset xs"
  by (induction xs) (simp_all add: js_sort_def mset_js_insert)

lemma set_js_sort: "set (js_sort cmp xs) = set xs"
  by (metis mset_js_sort set_mset_mset)

lemma js_sort_Cons: "js_sort cmp (x # xs) = js_insert cmp x (js_sort cmp xs)"
  by (simp add: js_sort_def)

lemma js_sort_Nil: "js_sort cmp [] = []"
  by (simp add: js_sort_def)

lemma set_js_insert: "set (js_insert cmp x ys) = insert x (set ys)"
  by (induction ys) auto

lemma sorted_js_insert:
  "consistent cmp \<Longrightarrow> sorted_wrt (\<lambda>a b. cmp a b \<le> 0) ys \<Longrightarrow>
   sorted_wrt (\<lambda>a b. cmp a b \<le> 0) (js_insert cmp x ys)"
proof (induction ys)
  case Nil
  then show ?case by simp
next
  case (Cons y ys)
  show ?case
  proof (cases "cmp x y \<le> 0")
    case True
    with Cons.prems show ?thesis
      by (auto intro: consistent_trans)
  next
    case False
    with Cons.prems have "cmp y x \<le> 0" by (simp add: consistent_total)
    with False Cons show ?thesis
      by (auto simp: set_js_insert)
  qed
qed

lemma sorted_js_sort: "consistent cmp \<Longrightarrow> sorted_wrt (\<lambda>a b. cmp a b \<le> 0) (js_sort cmp xs)"
  by (induction xs) (simp_all add: js_sort_Nil js_sort_Cons sorted_js_insert)

lemma filter_js_insert:
  assumes c: "consistent cmp"
  shows "filter (\<lambda>y. cmp k y = 0) (js_insert cmp x ys) =
         (if cmp k x = 0 then x # filter (\<lambda>y. cmp k y = 0) ys else filter (\<lambda>y. cmp k y = 0) ys)"
proof (induction ys)
  case Nil
  then show ?case by simp
next
  case (Cons y ys)
  show ?case
  proof (cases "cmp x y \<le> 0")
    case True
    then show ?thesis by simp
  next
    case False
    have "\<not> (cmp k x = 0 \<and> cmp k y = 0)"
    proof
      assume h: "cmp k x = 0 \<and> cmp k y = 0"
      then have "cmp x k = 0" using consistent_zero [OF c, of k x] by simp
      with h have "cmp x y = 0" using consistent_eq_trans [OF c, of x k y] by simp
      with False show False by simp
    qed
    with False Cons show ?thesis by auto
  qed
qed

lemma js_sort_stable:
  "consistent cmp \<Longrightarrow> filter (\<lambda>y. cmp k y = 0) (js_sort cmp xs) = filter (\<lambda>y. cmp k y = 0) xs"
  by (induction xs) (simp_all add: js_sort_Nil js_sort_Cons filter_js_insert)

section \<open>The example collation is consistent\<close>

lemma lexCompare_sym: "(lexCompare a b < 0) = (0 < lexCompare b a)"
  by (induction a b rule: lexCompare.induct) auto

lemma lexCompare_Cons_le:
  "(lexCompare (x # xs) (y # ys) \<le> 0) = (x < y \<or> (x = y \<and> lexCompare xs ys \<le> 0))"
  by simp

lemma lexCompare_trans: "lexCompare a b \<le> 0 \<Longrightarrow> lexCompare b c \<le> 0 \<Longrightarrow> lexCompare a c \<le> 0"
proof (induction a arbitrary: b c)
  case Nil
  then show ?case by (cases c) simp_all
next
  case (Cons x xs)
  from Cons.prems(1) obtain y ys where b: "b = y # ys"
    by (cases b) simp_all
  from Cons.prems(2) b obtain z zs where c: "c = z # zs"
    by (cases c) simp_all
  from Cons.prems b c have ab: "x < y \<or> (x = y \<and> lexCompare xs ys \<le> 0)"
    and bc: "y < z \<or> (y = z \<and> lexCompare ys zs \<le> 0)"
    by (simp_all only: lexCompare_Cons_le)
  from ab bc have "x < z \<or> (x = z \<and> lexCompare xs ys \<le> 0 \<and> lexCompare ys zs \<le> 0)"
    by auto
  then have "x < z \<or> (x = z \<and> lexCompare xs zs \<le> 0)"
    using Cons.IH by blast
  then show ?case
    by (simp only: c lexCompare_Cons_le)
qed

lemma consistent_lexCompare: "consistent lexCompare"
  unfolding consistent_def using lexCompare_sym lexCompare_trans by blast

lemma trCompare_lex:
  "trCompare = lexCmp (\<lambda>a b. lexCompare (map trPrimary a) (map trPrimary b))
                      (\<lambda>a b. lexCompare (map trTertiary a) (map trTertiary b))"
  by (intro ext) (simp add: trCompare_def lexCmp_def Let_def)

lemma consistent_trCompare: "consistent trCompare"
proof -
  have 1: "consistent (\<lambda>a b. lexCompare (map trPrimary a) (map trPrimary b))"
    using consistent_lexCompare by (rule consistent_on)
  have 2: "consistent (\<lambda>a b. lexCompare (map trTertiary a) (map trTertiary b))"
    using consistent_lexCompare by (rule consistent_on)
  show ?thesis unfolding trCompare_lex by (rule consistent_lexCmp [OF 1 2])
qed

section \<open>The filters\<close>


lemma filtered_char:
  "filtered lc items sel q =
     filter (\<lambda>x. (sel = TUMU \<or> normalize lc (Some (category x)) = normalize lc (Some sel)) \<and>
                 (normalize lc (Some q) = [] \<or>
                  includesStr (normalize lc (Some (name x))) (normalize lc (Some q)) \<or>
                  includesStr (normalize lc (Some (category x))) (normalize lc (Some q)))) items"
  by (simp add: filtered_def Let_def)

lemma filteredMenu_char:
  "filteredMenu lc cmp items q sel mode =
     js_sort (modeCompare cmp mode)
       (filter (\<lambda>x. (sel = TUMU \<or> normalize lc (Some (category x)) = normalize lc (Some sel)) \<and>
                 (normalize lc (Some q) = [] \<or>
                  includesStr (normalize lc (Some (name x))) (normalize lc (Some q)) \<or>
                  includesStr (normalize lc (Some (category x))) (normalize lc (Some q)))) items)"
proof -
  have "\<And>P Q. filter P (filter Q items) = filter (\<lambda>x. P x \<and> Q x) items"
    by (simp add: conj_commute)
  then show ?thesis
    by (cases mode) (simp_all add: filteredMenu_def Let_def modeCompare_def)
qed

lemma filteredMenu_mset:
  "mset (filteredMenu lc cmp items q sel mode) =
     mset (filter (\<lambda>x. (sel = TUMU \<or> normalize lc (Some (category x)) = normalize lc (Some sel)) \<and>
                 (normalize lc (Some q) = [] \<or>
                  includesStr (normalize lc (Some (name x))) (normalize lc (Some q)) \<or>
                  includesStr (normalize lc (Some (category x))) (normalize lc (Some q)))) items)"
  by (simp only: filteredMenu_char mset_js_sort)

lemma includesStr_sublist: "includesStr s q = sublist q s"
  by (induction s) (auto simp: sublist_Cons_right)

text \<open>
  C4. With no search query, the category filter returns the list unchanged under the
  sentinel, and otherwise keeps exactly the items whose normalized category equals the
  normalized selection: equality of strings, not containment. The admin pipeline keeps the
  same items (it sorts them afterwards).
\<close>

theorem category_filter_exact:
  assumes "normalize lc (Some search) = []"
  shows "filtered lc items sel search =
           (if sel = TUMU then items
            else filter (\<lambda>x. normalize lc (Some (category x)) = normalize lc (Some sel)) items) \<and>
         mset (filteredMenu lc cmp items search sel mode) =
           mset (if sel = TUMU then items
                 else filter (\<lambda>x. normalize lc (Some (category x)) = normalize lc (Some sel)) items)"
  using assms by (simp add: filtered_char filteredMenu_mset)

lemma n1: "normalize latinLowerCase (Some (str ''Burger'')) = str ''burger''"
  by (simp add: string_eval)

lemma n2: "normalize latinLowerCase (Some (str ''  Burger Deluxe '')) = str ''burger deluxe''"
  by (simp add: string_eval)

text \<open>
  The example of the specification: of a Burger item and a Toast item, the selection
  \<^verbatim>\<open>"burger"\<close> keeps the Burger item only, and the selection \<^verbatim>\<open>"Burg"\<close>,
  a proper substring, keeps nothing.
\<close>

theorem category_filter_exact_witness:
  "normalize latinLowerCase (Some []) = [] \<and>
   filtered latinLowerCase [burgerDeluxe, toastPlain] (str ''burger'') [] = [burgerDeluxe] \<and>
   filtered latinLowerCase [burgerDeluxe, toastPlain] (str ''Burg'') [] = [] \<and>
   filtered latinLowerCase [burgerDeluxe, toastPlain] TUMU [] = [burgerDeluxe, toastPlain] \<and>
   mset (filteredMenu latinLowerCase trCompare [burgerDeluxe, toastPlain] [] (str ''burger'') sort_default) =
     {#burgerDeluxe#}"
proof -
  have e: "normalize latinLowerCase (Some []) = []" by (simp add: string_eval)
  show ?thesis
    using category_filter_exact [OF e, of "[burgerDeluxe, toastPlain]" "str ''burger''" trCompare sort_default]
      category_filter_exact [OF e, of "[burgerDeluxe, toastPlain]" "str ''Burg''" trCompare sort_default]
      category_filter_exact [OF e, of "[burgerDeluxe, toastPlain]" TUMU trCompare sort_default]
    by (simp add: string_eval burgerDeluxe_def toastPlain_def)
qed

text \<open>
  C5. With the sentinel category, the search filter returns the list unchanged when the
  normalized query is empty, and otherwise keeps exactly the items whose normalized name
  or normalized category contains the normalized query as a contiguous substring.
\<close>

theorem search_filter_substring:
  "filtered lc items TUMU q =
     (if normalize lc (Some q) = [] then items
      else filter (\<lambda>x. sublist (normalize lc (Some q)) (normalize lc (Some (name x))) \<or>
                      sublist (normalize lc (Some q)) (normalize lc (Some (category x)))) items) \<and>
   mset (filteredMenu lc cmp items q TUMU mode) =
     mset (if normalize lc (Some q) = [] then items
           else filter (\<lambda>x. sublist (normalize lc (Some q)) (normalize lc (Some (name x))) \<or>
                           sublist (normalize lc (Some q)) (normalize lc (Some (category x)))) items)"
  by (simp add: filtered_char filteredMenu_mset includesStr_sublist)

text \<open>
  The example of the specification: \<^verbatim>\<open>"deluxe"\<close> keeps the item named Burger Deluxe,
  \<^verbatim>\<open>"pizza"\<close> excludes it; a query of blanks is no query.
\<close>

theorem search_filter_substring_witness:
  "filtered latinLowerCase [burgerDeluxe, toastPlain] TUMU (str ''deluxe'') = [burgerDeluxe] \<and>
   filtered latinLowerCase [burgerDeluxe] TUMU (str ''pizza'') = [] \<and>
   filtered latinLowerCase [burgerDeluxe, toastPlain] TUMU (str ''  '') = [burgerDeluxe, toastPlain] \<and>
   filtered latinLowerCase [burgerDeluxe, toastPlain] TUMU (str ''TOAST'') = [toastPlain] \<and>
   mset (filteredMenu latinLowerCase trCompare [burgerDeluxe, toastPlain] (str ''deluxe'') TUMU name_asc) =
     {#burgerDeluxe#}"
  using search_filter_substring [of latinLowerCase "[burgerDeluxe, toastPlain]" "str ''deluxe''" trCompare name_asc]
    search_filter_substring [of latinLowerCase "[burgerDeluxe]" "str ''pizza''" trCompare name_asc]
    search_filter_substring [of latinLowerCase "[burgerDeluxe, toastPlain]" "str ''  ''" trCompare name_asc]
    search_filter_substring [of latinLowerCase "[burgerDeluxe, toastPlain]" "str ''TOAST''" trCompare name_asc]
  by (simp add: string_eval burgerDeluxe_def toastPlain_def includesStr_sublist [symmetric])

lemma subseq_filtered: "subseq (filtered lc items sel q) items"
  by (simp add: filtered_char)

section \<open>The default order of the admin view\<close>

lemmas collation_eval = trCompare_def trPrimary_def trTertiary_def trLower_def trUpper_def

lemma filteredMenu_unfiltered:
  "normalize lc (Some q) = [] \<Longrightarrow>
   filteredMenu lc cmp items q TUMU mode = js_sort (modeCompare cmp mode) items"
  by (simp add: filteredMenu_char)

lemma defaultCompare_avail:
  "defaultCompare cmp a b \<le> 0 \<Longrightarrow> isAvailable b \<Longrightarrow> isAvailable a"
  by (auto simp: defaultCompare_def split: if_splits)

text \<open>
  C3, as the code has it. For a consistent collation the default mode returns a list
  that is sorted by \<open>defaultCompare\<close>: no unavailable item precedes an available one;
  among items of equal availability the order is that of the category \<^emph>\<open>as stored\<close>
  (neither trimmed nor lower-cased), then that of the name; items that compare equal keep
  their order (the sort is stable; stated where no filter is set, so that the input of
  the sort is the list itself); and of two items that differ in availability the
  available one comes first, whatever their categories and names.
\<close>

theorem admin_default_sort:
  assumes c: "consistent cmp"
  shows "sorted_wrt (\<lambda>a b. defaultCompare cmp a b \<le> 0) (filteredMenu lc cmp items q sel sort_default) \<and>
         sorted_wrt (\<lambda>a b. isAvailable b \<longrightarrow> isAvailable a) (filteredMenu lc cmp items q sel sort_default) \<and>
         (normalize lc (Some q0) = [] \<longrightarrow>
            filter (\<lambda>y. defaultCompare cmp k y = 0) (filteredMenu lc cmp items q0 TUMU sort_default) =
              filter (\<lambda>y. defaultCompare cmp k y = 0) items) \<and>
         (isAvailable a = isAvailable b \<longrightarrow>
            defaultCompare cmp a b =
              (if cmp (category a) (category b) \<noteq> 0 then cmp (category a) (category b)
               else cmp (name a) (name b))) \<and>
         (normalize lc (Some q0) = [] \<and> isAvailable a \<and> \<not> isAvailable b \<longrightarrow>
            filteredMenu lc cmp [a, b] q0 TUMU sort_default = [a, b] \<and>
            filteredMenu lc cmp [b, a] q0 TUMU sort_default = [a, b])"
proof -
  have dc: "consistent (defaultCompare cmp)"
    using c by (rule consistent_defaultCompare)
  have 1: "sorted_wrt (\<lambda>a b. defaultCompare cmp a b \<le> 0) (filteredMenu lc cmp items q sel sort_default)"
    by (simp add: filteredMenu_char modeCompare_def sorted_js_sort [OF dc])
  have 2: "sorted_wrt (\<lambda>a b. isAvailable b \<longrightarrow> isAvailable a) (filteredMenu lc cmp items q sel sort_default)"
    by (rule sorted_wrt_mono_rel [OF _ 1]) (blast dest: defaultCompare_avail)
  have 3: "normalize lc (Some q0) = [] \<longrightarrow>
           filter (\<lambda>y. defaultCompare cmp k y = 0) (filteredMenu lc cmp items q0 TUMU sort_default) =
           filter (\<lambda>y. defaultCompare cmp k y = 0) items"
    by (simp add: filteredMenu_unfiltered modeCompare_def js_sort_stable [OF dc])
  have 4: "isAvailable a = isAvailable b \<longrightarrow>
            defaultCompare cmp a b =
              (if cmp (category a) (category b) \<noteq> 0 then cmp (category a) (category b)
               else cmp (name a) (name b))"
    by (simp add: defaultCompare_def Let_def)
  have 5: "normalize lc (Some q0) = [] \<and> isAvailable a \<and> \<not> isAvailable b \<longrightarrow>
            filteredMenu lc cmp [a, b] q0 TUMU sort_default = [a, b] \<and>
            filteredMenu lc cmp [b, a] q0 TUMU sort_default = [a, b]"
    by (simp add: filteredMenu_unfiltered modeCompare_def js_sort_def defaultCompare_def)
  show ?thesis
    by (intro conjI 1 2 3 4 5)
qed

lemma default_sort_example:
  "filteredMenu latinLowerCase trCompare [ayranOff, toastPlain, burgerDeluxe] [] TUMU sort_default =
     [burgerDeluxe, toastPlain, ayranOff]"
  by (simp add: filteredMenu_unfiltered [OF latin_normalize_empty] modeCompare_def js_sort_def
      defaultCompare_def burgerDeluxe_def toastPlain_def ayranOff_def collation_eval str_def)

theorem admin_default_sort_witness:
  "consistent trCompare \<and>
   filteredMenu latinLowerCase trCompare [ayranOff, toastPlain, burgerDeluxe] [] TUMU sort_default =
     [burgerDeluxe, toastPlain, ayranOff] \<and>
   sorted_wrt (\<lambda>a b. defaultCompare trCompare a b \<le> 0) [burgerDeluxe, toastPlain, ayranOff] \<and>
   isAvailable burgerDeluxe \<and> \<not> isAvailable (burgerDeluxe\<lparr>isAvailable := False\<rparr>) \<and>
   filteredMenu latinLowerCase trCompare [burgerDeluxe\<lparr>isAvailable := False\<rparr>, burgerDeluxe] [] TUMU sort_default =
     [burgerDeluxe, burgerDeluxe\<lparr>isAvailable := False\<rparr>]"
proof -
  have a: "isAvailable burgerDeluxe \<and> \<not> isAvailable (burgerDeluxe\<lparr>isAvailable := False\<rparr>)"
    by (simp add: burgerDeluxe_def)
  show ?thesis
    using admin_default_sort [OF consistent_trCompare,
        where lc = latinLowerCase and items = "[ayranOff, toastPlain, burgerDeluxe]"
          and q = "[]" and sel = TUMU and ?q0.0 = "[]" and a = burgerDeluxe
          and b = "burgerDeluxe\<lparr>isAvailable := False\<rparr>"]
      a consistent_trCompare latin_normalize_empty
    by (simp only: default_sort_example simp_thms)
qed

text \<open>
  The wording of the specification, ``by the normalized category'', fails: \<^verbatim>\<open>"Burger"\<close> and
  \<^verbatim>\<open>"burger"\<close> normalize to one string, so the specified order would fall through
  to the names and put Cheeseburger first; the code compares the stored categories, the
  collation puts the lower-case one first, and Hamburger comes out on top.
\<close>

theorem admin_default_sort_counterexample:
  "filteredMenu latinLowerCase trCompare [cheeseBurger, hamBurger] [] TUMU sort_default = [hamBurger, cheeseBurger] \<and>
   normalize latinLowerCase (Some (category cheeseBurger)) = normalize latinLowerCase (Some (category hamBurger)) \<and>
   trCompare (name cheeseBurger) (name hamBurger) < 0 \<and>
   isAvailable cheeseBurger = isAvailable hamBurger \<and>
   \<not> sorted_wrt (\<lambda>a b. defaultCompareNormalized latinLowerCase trCompare a b \<le> 0)
      (filteredMenu latinLowerCase trCompare [cheeseBurger, hamBurger] [] TUMU sort_default)"
proof -
  have 1: "filteredMenu latinLowerCase trCompare [cheeseBurger, hamBurger] [] TUMU sort_default = [hamBurger, cheeseBurger]"
    by (simp add: filteredMenu_unfiltered [OF latin_normalize_empty] modeCompare_def js_sort_def
      defaultCompare_def cheeseBurger_def hamBurger_def collation_eval str_def)
  have 2: "normalize latinLowerCase (Some (category cheeseBurger)) = normalize latinLowerCase (Some (category hamBurger))"
    by (simp add: cheeseBurger_def hamBurger_def string_eval)
  have 3: "trCompare (name cheeseBurger) (name hamBurger) < 0"
    by (simp add: cheeseBurger_def hamBurger_def collation_eval str_def)
  have 4: "isAvailable cheeseBurger = isAvailable hamBurger"
    by (simp add: cheeseBurger_def hamBurger_def)
  have "trCompare (name hamBurger) (name cheeseBurger) > 0"
    using 3 consistent_sym [OF consistent_trCompare] by simp
  moreover have "trCompare (normalize latinLowerCase (Some (category hamBurger))) (normalize latinLowerCase (Some (category cheeseBurger))) = 0"
    using 2 consistent_refl [OF consistent_trCompare] by simp
  ultimately have "defaultCompareNormalized latinLowerCase trCompare hamBurger cheeseBurger > 0"
    using 4 by (simp add: defaultCompareNormalized_def)
  then have 5: "\<not> sorted_wrt (\<lambda>a b. defaultCompareNormalized latinLowerCase trCompare a b \<le> 0) [hamBurger, cheeseBurger]"
    by simp
  show ?thesis
    using 1 2 3 4 5 by (simp only: simp_thms)
qed

section \<open>Grouping\<close>

lemma map_of_map_set: "map_of (map_set m k v) = (map_of m)(k \<mapsto> v)"
  by (induction m k v rule: map_set.induct) auto

lemma keys_map_set:
  "map fst (map_set m k v) = (if k \<in> set (map fst m) then map fst m else map fst m @ [k])"
  by (induction m k v rule: map_set.induct) auto

lemma firstSeen_snoc:
  "firstSeen (xs @ [x]) = (if x \<in> set (firstSeen xs) then firstSeen xs else firstSeen xs @ [x])"
  by (simp add: firstSeen_def)

lemma set_firstSeen: "set (firstSeen xs) = set xs"
  by (simp add: firstSeen_def)

lemma distinct_firstSeen: "distinct (firstSeen xs)"
  by (simp add: firstSeen_def)

lemma keys_groupStep:
  "map fst (groupStep m x) =
     (if groupKey x \<in> set (map fst m) then map fst m else map fst m @ [groupKey x])"
  by (auto simp: groupStep_def Let_def map_has_def map_get_def keys_map_set map_of_map_set
      split: option.splits)

lemma map_of_groupStep:
  "map_of (groupStep m x) =
     (map_of m)(groupKey x \<mapsto> (case map_of m (groupKey x) of None \<Rightarrow> [] | Some arr \<Rightarrow> arr) @ [x])"
proof (cases "map_has m (groupKey x)")
  case True
  then obtain arr where "map_of m (groupKey x) = Some arr"
    by (auto simp: map_has_def dest: weak_map_of_SomeI)
  with True show ?thesis
    by (simp add: groupStep_def Let_def map_get_def map_of_map_set)
next
  case False
  then have "map_of m (groupKey x) = None"
    by (simp add: map_has_def map_of_eq_None_iff)
  with False show ?thesis
    by (simp add: groupStep_def Let_def map_get_def map_of_map_set)
qed

lemma groupStep_defined:
  "map_get (if \<not> map_has m k then map_set m k [] else m) k \<noteq> None"
proof (cases "map_has m k")
  case True
  then show ?thesis
    by (simp add: map_get_def map_has_def map_of_eq_None_iff)
next
  case False
  then show ?thesis
    by (simp add: map_get_def map_of_map_set)
qed

lemma keys_groupLoop: "map fst (foldl groupStep [] flt) = firstSeen (map groupKey flt)"
proof (induction flt rule: rev_induct)
  case Nil
  then show ?case by (simp add: firstSeen_def)
next
  case (snoc x xs)
  then show ?case by (simp add: keys_groupStep firstSeen_snoc)
qed

lemma map_of_groupLoop:
  "map_of (foldl groupStep [] flt) k =
     (if k \<in> groupKey ` set flt then Some (filter (\<lambda>x. groupKey x = k) flt) else None)"
proof (induction flt rule: rev_induct)
  case Nil
  then show ?case by simp
next
  case (snoc x xs)
  show ?case
  proof (cases "k = groupKey x")
    case True
    show ?thesis
    proof (cases "groupKey x \<in> groupKey ` set xs")
      case in_xs: True
      with True snoc show ?thesis
        by (simp add: map_of_groupStep)
    next
      case out_xs: False
      then have "\<forall>y \<in> set xs. groupKey y \<noteq> groupKey x"
        by (metis imageI)
      then have "filter (\<lambda>y. groupKey y = groupKey x) xs = []"
        by (simp add: filter_empty_conv)
      with out_xs True snoc show ?thesis
        by (simp add: map_of_groupStep)
    qed
  next
    case False
    then show ?thesis
      using snoc by (auto simp: map_of_groupStep)
  qed
qed

lemma keys_sortLoop:
  "set (map fst es) \<subseteq> set (map fst acc) \<Longrightarrow> map fst (foldl (sortStep cmp) acc es) = map fst acc"
proof (induction es arbitrary: acc)
  case Nil
  then show ?case by simp
next
  case (Cons e es)
  obtain k v where e: "e = (k, v)" by (cases e)
  have "map fst (map_set acc k (js_sort (byName cmp) v)) = map fst acc"
    using Cons.prems e by (simp add: keys_map_set)
  moreover from this Cons.prems
  have "set (map fst es) \<subseteq> set (map fst (map_set acc k (js_sort (byName cmp) v)))"
    by simp
  ultimately show ?case
    using Cons.IH [of "map_set acc k (js_sort (byName cmp) v)"] e
    by (simp add: sortStep_def)
qed

lemma map_of_sortLoop:
  "distinct (map fst es) \<Longrightarrow>
   map_of (foldl (sortStep cmp) acc es) k =
     (case map_of es k of Some v \<Rightarrow> Some (js_sort (byName cmp) v) | None \<Rightarrow> map_of acc k)"
proof (induction es arbitrary: acc)
  case Nil
  then show ?case by simp
next
  case (Cons e es)
  obtain k0 v0 where e: "e = (k0, v0)" by (cases e)
  from Cons.prems e have d: "distinct (map fst es)" and n: "k0 \<notin> fst ` set es"
    by simp_all
  from n have none: "map_of es k0 = None"
    by (simp add: map_of_eq_None_iff)
  have step: "foldl (sortStep cmp) acc (e # es) =
              foldl (sortStep cmp) (map_set acc k0 (js_sort (byName cmp) v0)) es"
    by (simp add: e sortStep_def)
  have ih: "map_of (foldl (sortStep cmp) (map_set acc k0 (js_sort (byName cmp) v0)) es) k =
        (case map_of es k of Some v \<Rightarrow> Some (js_sort (byName cmp) v)
         | None \<Rightarrow> map_of (map_set acc k0 (js_sort (byName cmp) v0)) k)"
    using d by (rule Cons.IH)
  show ?case
    unfolding step ih using e none
    by (auto simp: map_of_map_set split: option.splits)
qed

lemma map_get_grouped:
  "map_get (foldl (sortStep cmp) (foldl groupStep [] flt) (foldl groupStep [] flt)) k =
     (if k \<in> groupKey ` set flt
      then Some (js_sort (byName cmp) (filter (\<lambda>x. groupKey x = k) flt)) else None)"
proof -
  have "distinct (map fst (foldl groupStep [] flt))"
    by (simp add: keys_groupLoop distinct_firstSeen)
  then show ?thesis
    by (simp add: map_get_def map_of_sortLoop map_of_groupLoop)
qed

lemma map_keys_grouped:
  "map_keys (foldl (sortStep cmp) (foldl groupStep [] flt) (foldl groupStep [] flt)) =
     firstSeen (map groupKey flt)"
  by (simp add: map_keys_def keys_sortLoop keys_groupLoop)

lemma map_has_grouped:
  "map_has (foldl (sortStep cmp) (foldl groupStep [] flt) (foldl groupStep [] flt)) k =
     (k \<in> groupKey ` set flt)"
  using map_keys_grouped [of cmp flt]
  by (simp add: map_has_def map_keys_def set_firstSeen)

lemma map_get_defined:
  "map_has (foldl (sortStep cmp) (foldl groupStep [] flt) (foldl groupStep [] flt)) k \<Longrightarrow>
   map_get (foldl (sortStep cmp) (foldl groupStep [] flt) (foldl groupStep [] flt)) k \<noteq> None"
  by (simp add: map_has_grouped map_get_grouped)

lemma set_groupKeys: "set (groupKeys cmp flt) = groupKey ` set flt"
  by (auto simp: groupKeys_def set_js_sort set_firstSeen)

lemma grouped_char: "grouped cmp flt = map (sortedGroup cmp flt) (groupKeys cmp flt)"
proof -
  let ?m = "foldl (sortStep cmp) (foldl groupStep [] flt) (foldl groupStep [] flt)"
  have g: "\<And>k. k \<in> set (groupKeys cmp flt) \<Longrightarrow> (k, the (map_get ?m k)) = sortedGroup cmp flt k"
    by (simp add: set_groupKeys map_get_grouped sortedGroup_def)
  have h: "map_has ?m = (\<lambda>c. c \<in> groupKey ` set flt)"
    by (intro ext) (rule map_has_grouped)
  have "grouped cmp flt = map (\<lambda>k. (k, the (map_get ?m k))) (groupKeys cmp flt)"
    by (simp add: grouped_def Let_def groupKeys_def h map_keys_grouped)
  also have "\<dots> = map (sortedGroup cmp flt) (groupKeys cmp flt)"
    using g by (simp cong: map_cong)
  finally show ?thesis .
qed

lemma sum_none:
  "k0 \<notin> set K \<Longrightarrow> sum_list (map (\<lambda>k. if k0 = k then {#x#} else {#}) K) = {#}"
  by (induction K) auto

lemma sum_single:
  "distinct K \<Longrightarrow> k0 \<in> set K \<Longrightarrow>
   sum_list (map (\<lambda>k. if k0 = k then {#x#} else {#}) K) = {#x#}"
proof (induction K)
  case Nil
  then show ?case by simp
next
  case (Cons k K)
  show ?case
  proof (cases "k0 = k")
    case True
    with Cons.prems have "k0 \<notin> set K" by simp
    then have "sum_list (map (\<lambda>k. if k0 = k then {#x#} else {#}) K) = {#}"
      by (rule sum_none)
    with True show ?thesis by simp
  next
    case False
    with Cons show ?thesis by simp
  qed
qed

lemma mset_filter_Cons:
  "mset (filter P (x # xs)) = (if P x then {#x#} else {#}) + mset (filter P xs)"
  by simp

lemma sum_groups:
  "distinct K \<Longrightarrow> f ` set xs \<subseteq> set K \<Longrightarrow>
   sum_list (map (\<lambda>k. mset (filter (\<lambda>y. f y = k) xs)) K) = mset xs"
proof (induction xs)
  case Nil
  then show ?case by simp
next
  case (Cons x xs)
  have "sum_list (map (\<lambda>k. mset (filter (\<lambda>y. f y = k) (x # xs))) K) =
        sum_list (map (\<lambda>k. (if f x = k then {#x#} else {#}) + mset (filter (\<lambda>y. f y = k) xs)) K)"
    by (simp only: mset_filter_Cons)
  also have "\<dots> = sum_list (map (\<lambda>k. if f x = k then {#x#} else {#}) K) +
        sum_list (map (\<lambda>k. mset (filter (\<lambda>y. f y = k) xs)) K)"
    by (rule sum_list_addf)
  also have "\<dots> = {#x#} + mset xs"
    using Cons by (simp add: sum_single)
  finally show ?case by simp
qed

lemma distinct_CATEGORY_ORDER: "distinct CATEGORY_ORDER"
  by (simp add: CATEGORY_ORDER_def str_def)

lemma distinct_js_sort: "distinct (js_sort cmp xs) = distinct xs"
  by (rule mset_eq_imp_distinct_iff) (rule mset_js_sort)

lemma distinct_groupKeys: "distinct (groupKeys cmp flt)"
  by (auto simp: groupKeys_def distinct_CATEGORY_ORDER distinct_js_sort distinct_firstSeen
      set_js_sort)

lemma keys_grouped: "map fst (grouped cmp flt) = groupKeys cmp flt"
  by (simp add: grouped_char sortedGroup_def comp_def)

lemma contents_grouped:
  "map (\<lambda>g. mset (snd g)) (grouped cmp flt) =
   map (\<lambda>k. mset (filter (\<lambda>x. groupKey x = k) flt)) (groupKeys cmp flt)"
  by (simp add: grouped_char sortedGroup_def comp_def mset_js_sort)

text \<open>
  C2. Grouping is a partition of the filtered list: the multiset union of the groups'
  contents is the multiset of the list, the keys of the groups are distinct and are
  exactly the keys occurring in the list, and a group holds exactly the items of the list
  that have its key. So every item is in one group and in no other.
\<close>

theorem grouping_partition:
  "sum_list (map (\<lambda>g. mset (snd g)) (grouped cmp flt)) = mset flt \<and>
   distinct (map fst (grouped cmp flt)) \<and>
   fst ` set (grouped cmp flt) = groupKey ` set flt \<and>
   (\<forall>g \<in> set (grouped cmp flt). \<forall>x. (x \<in> set (snd g)) = (x \<in> set flt \<and> groupKey x = fst g))"
proof -
  have 1: "sum_list (map (\<lambda>g. mset (snd g)) (grouped cmp flt)) = mset flt"
    unfolding contents_grouped
    by (rule sum_groups) (simp_all add: distinct_groupKeys set_groupKeys)
  have 2: "distinct (map fst (grouped cmp flt))"
    by (simp add: keys_grouped distinct_groupKeys)
  have "set (map fst (grouped cmp flt)) = groupKey ` set flt"
    by (simp only: keys_grouped set_groupKeys)
  then have 3: "fst ` set (grouped cmp flt) = groupKey ` set flt"
    by simp
  have 4: "\<forall>g \<in> set (grouped cmp flt). \<forall>x. (x \<in> set (snd g)) = (x \<in> set flt \<and> groupKey x = fst g)"
    by (auto simp: grouped_char sortedGroup_def set_js_sort)
  show ?thesis
    by (intro conjI 1 2 3 4)
qed

text \<open>
  C1. The keys come out in two runs. The first is the preferred list restricted to the
  keys present, in the preferred order. The second, \<open>extras\<close>, holds every other key
  once (the synthetic key is never a preferred one), sorted by the collation; the items
  inside each group are sorted by name with the same collation. The collation is the
  platform's, a parameter here: the theorem holds for every consistent one. Letter case
  is the collation's matter: \<open>extras\<close> is sorted as well by every coarser comparison
  \<open>ci\<close> that the collation refines, and the platform's collation refines the
  comparison that ignores case (it looks at case only between strings that are otherwise
  equal).
\<close>

theorem group_order:
  assumes c: "consistent cmp"
  shows "\<exists>extras.
           map fst (grouped cmp flt) =
             filter (\<lambda>c. c \<in> groupKey ` set flt) CATEGORY_ORDER @ extras \<and>
           extras = js_sort cmp (filter (\<lambda>k. k \<notin> set CATEGORY_ORDER) (firstSeen (map groupKey flt))) \<and>
           set extras = groupKey ` set flt - set CATEGORY_ORDER \<and>
           distinct extras \<and>
           sorted_wrt (\<lambda>a b. cmp a b \<le> 0) extras \<and>
           ((\<forall>a b. cmp a b \<le> 0 \<longrightarrow> ci a b \<le> 0) \<longrightarrow> sorted_wrt (\<lambda>a b. ci a b \<le> 0) extras) \<and>
           (\<forall>g \<in> set (grouped cmp flt). sorted_wrt (\<lambda>a b. cmp (name a) (name b) \<le> 0) (snd g)) \<and>
           DIGER \<notin> set CATEGORY_ORDER"
proof -
  let ?extras = "js_sort cmp (filter (\<lambda>k. k \<notin> set CATEGORY_ORDER) (firstSeen (map groupKey flt)))"
  have 1: "map fst (grouped cmp flt) =
             filter (\<lambda>c. c \<in> groupKey ` set flt) CATEGORY_ORDER @ ?extras"
    by (simp add: keys_grouped groupKeys_def)
  have 2: "set ?extras = groupKey ` set flt - set CATEGORY_ORDER"
    by (auto simp: set_js_sort set_firstSeen)
  have 3: "distinct ?extras"
    by (simp add: distinct_js_sort distinct_firstSeen)
  have 4: "sorted_wrt (\<lambda>a b. cmp a b \<le> 0) ?extras"
    using c by (rule sorted_js_sort)
  have bn: "consistent (byName cmp)"
    unfolding byName_def using c by (rule consistent_on)
  have "\<And>xs. sorted_wrt (\<lambda>a b. cmp (name a) (name b) \<le> 0) (js_sort (byName cmp) xs)"
    using sorted_js_sort [OF bn] by (simp add: byName_def)
  then have 5: "\<forall>g \<in> set (grouped cmp flt). sorted_wrt (\<lambda>a b. cmp (name a) (name b) \<le> 0) (snd g)"
    by (auto simp: grouped_char sortedGroup_def)
  have 6: "DIGER \<notin> set CATEGORY_ORDER"
    by (simp add: DIGER_def CATEGORY_ORDER_def str_def)
  have 7: "(\<forall>a b. cmp a b \<le> 0 \<longrightarrow> ci a b \<le> 0) \<longrightarrow> sorted_wrt (\<lambda>a b. ci a b \<le> 0) ?extras"
  proof
    assume "\<forall>a b. cmp a b \<le> 0 \<longrightarrow> ci a b \<le> 0"
    then show "sorted_wrt (\<lambda>a b. ci a b \<le> 0) ?extras"
      by (intro sorted_wrt_mono_rel [OF _ 4]) blast
  qed
  show ?thesis
    using 1 2 3 4 5 6 7 by blast
qed

lemma groupKey_trim: "groupKey x = (if trim (category x) = [] then DIGER else trim (category x))"
proof -
  have "trim DIGER = DIGER"
    by (simp add: DIGER_def str_def trim_def isWhiteSpace_def)
  moreover have "DIGER \<noteq> []"
    by (simp add: DIGER_def)
  moreover have "trim [] = []"
    by (simp add: trim_def)
  ultimately show ?thesis
    by (simp add: groupKey_def orElse_def Let_def)
qed

text \<open>
  C10, as the code has it. The grouping key is the trimmed category, not lower-cased (the
  synthetic key when that is empty), whereas the category filter compares normalized
  categories. So for two items of a list that fall into different groups, with no search
  query set: a selection other than the sentinel retains both exactly when its normalized
  form is the normalized category of each; such a selection exists exactly when the two
  normalized categories are equal; and whenever both are retained, they come out in two
  different groups, each under its own key.
\<close>

theorem case_variants_split:
  assumes a: "a \<in> set items" and b: "b \<in> set items"
    and keys: "groupKey a \<noteq> groupKey b"
    and q: "normalize lc (Some q) = []"
  shows "groupKey a = (if trim (category a) = [] then DIGER else trim (category a)) \<and>
         groupKey b = (if trim (category b) = [] then DIGER else trim (category b)) \<and>
         (\<forall>sel. sel \<noteq> TUMU \<longrightarrow>
            (a \<in> set (filtered lc items sel q) \<and> b \<in> set (filtered lc items sel q)) =
            (normalize lc (Some (category a)) = normalize lc (Some sel) \<and>
             normalize lc (Some (category b)) = normalize lc (Some sel))) \<and>
         (\<exists>sel. sel \<noteq> TUMU \<and> a \<in> set (filtered lc items sel q) \<and>
                b \<in> set (filtered lc items sel q)) =
           (normalize lc (Some (category a)) = normalize lc (Some (category b))) \<and>
         (\<forall>sel. a \<in> set (filtered lc items sel q) \<and> b \<in> set (filtered lc items sel q) \<longrightarrow>
            (\<exists>ga gb. (groupKey a, ga) \<in> set (grouped cmp (filtered lc items sel q)) \<and>
                     (groupKey b, gb) \<in> set (grouped cmp (filtered lc items sel q)) \<and>
                     a \<in> set ga \<and> a \<notin> set gb \<and> b \<in> set gb \<and> b \<notin> set ga))"
proof -
  have ret: "\<And>sel x. sel \<noteq> TUMU \<Longrightarrow> x \<in> set items \<Longrightarrow>
      (x \<in> set (filtered lc items sel q)) = (normalize lc (Some (category x)) = normalize lc (Some sel))"
    using q by (simp add: filtered_char)
  have 1: "\<forall>sel. sel \<noteq> TUMU \<longrightarrow>
            (a \<in> set (filtered lc items sel q) \<and> b \<in> set (filtered lc items sel q)) =
            (normalize lc (Some (category a)) = normalize lc (Some sel) \<and>
             normalize lc (Some (category b)) = normalize lc (Some sel))"
    using a b by (simp add: ret)
  have 2: "(\<exists>sel. sel \<noteq> TUMU \<and> a \<in> set (filtered lc items sel q) \<and>
                b \<in> set (filtered lc items sel q)) =
           (normalize lc (Some (category a)) = normalize lc (Some (category b)))"
  proof
    assume "\<exists>sel. sel \<noteq> TUMU \<and> a \<in> set (filtered lc items sel q) \<and>
                b \<in> set (filtered lc items sel q)"
    then obtain sel where "sel \<noteq> TUMU" and "a \<in> set (filtered lc items sel q)"
      and "b \<in> set (filtered lc items sel q)"
      by blast
    then show "normalize lc (Some (category a)) = normalize lc (Some (category b))"
      using a b by (simp add: ret)
  next
    assume same: "normalize lc (Some (category a)) = normalize lc (Some (category b))"
    from keys have "category a \<noteq> category b"
      by (auto simp: groupKey_def)
    then consider "category a \<noteq> TUMU" | "category b \<noteq> TUMU"
      by (cases "category a = TUMU") auto
    then show "\<exists>sel. sel \<noteq> TUMU \<and> a \<in> set (filtered lc items sel q) \<and>
                b \<in> set (filtered lc items sel q)"
    proof cases
      case 1
      with a b same have "a \<in> set (filtered lc items (category a) q) \<and>
          b \<in> set (filtered lc items (category a) q)"
        by (simp add: ret)
      with 1 show ?thesis by blast
    next
      case 2
      with a b same have "a \<in> set (filtered lc items (category b) q) \<and>
          b \<in> set (filtered lc items (category b) q)"
        by (simp add: ret)
      with 2 show ?thesis by blast
    qed
  qed
  have 3: "\<forall>sel. a \<in> set (filtered lc items sel q) \<and> b \<in> set (filtered lc items sel q) \<longrightarrow>
            (\<exists>ga gb. (groupKey a, ga) \<in> set (grouped cmp (filtered lc items sel q)) \<and>
                     (groupKey b, gb) \<in> set (grouped cmp (filtered lc items sel q)) \<and>
                     a \<in> set ga \<and> a \<notin> set gb \<and> b \<in> set gb \<and> b \<notin> set ga)"
  proof (intro allI impI)
    fix sel
    let ?f = "filtered lc items sel q"
    assume "a \<in> set ?f \<and> b \<in> set ?f"
    then have fa: "a \<in> set ?f" and fb: "b \<in> set ?f"
      by simp_all
    let ?ga = "js_sort (byName cmp) (filter (\<lambda>x. groupKey x = groupKey a) ?f)"
    let ?gb = "js_sort (byName cmp) (filter (\<lambda>x. groupKey x = groupKey b) ?f)"
    have "groupKey a \<in> set (groupKeys cmp ?f)" "groupKey b \<in> set (groupKeys cmp ?f)"
      using fa fb by (simp_all add: set_groupKeys)
    then have "(groupKey a, ?ga) \<in> set (grouped cmp ?f)" "(groupKey b, ?gb) \<in> set (grouped cmp ?f)"
      by (auto simp: grouped_char sortedGroup_def)
    moreover have "a \<in> set ?ga" "b \<in> set ?gb" "a \<notin> set ?gb" "b \<notin> set ?ga"
      using fa fb keys by (simp_all add: set_js_sort)
    ultimately show "\<exists>ga gb. (groupKey a, ga) \<in> set (grouped cmp ?f) \<and>
        (groupKey b, gb) \<in> set (grouped cmp ?f) \<and>
        a \<in> set ga \<and> a \<notin> set gb \<and> b \<in> set gb \<and> b \<notin> set ga"
      by blast
  qed
  show ?thesis
    by (intro conjI groupKey_trim 1 2 3)
qed

lemma example_keys:
  "groupKey toastPlain = str ''Toast''"
  "groupKey cheeseBurger = str ''Burger''"
  "groupKey simit = DIGER"
  "groupKey hamBurger = str ''burger''"
  "groupKey tostKasar = str ''Tost''"
  "groupKey burgerDeluxe = str ''Burger''"
  by (simp_all add: groupKey_trim toastPlain_def cheeseBurger_def simit_def hamBurger_def
      tostKasar_def burgerDeluxe_def trim_def isWhiteSpace_def str_def)

lemma example_names:
  "name toastPlain = str ''Cheese Toast''"
  "name cheeseBurger = str ''Cheeseburger''"
  "name simit = str ''Simit''"
  "name hamBurger = str ''Hamburger''"
  "name tostKasar = str ''Kasar Tost''"
  "name burgerDeluxe = str ''Burger Deluxe''"
  by (simp_all add: toastPlain_def cheeseBurger_def simit_def hamBurger_def
      tostKasar_def burgerDeluxe_def)

lemma example_grouped:
  "grouped trCompare exampleMenu =
     [(str ''Burger'', [burgerDeluxe, cheeseBurger]),
      (str ''Tost'', [tostKasar]),
      (str ''burger'', [hamBurger]),
      (DIGER, [simit]),
      (str ''Toast'', [toastPlain])]"
  by (simp add: grouped_def Let_def exampleMenu_def groupStep_def sortStep_def map_has_def
      map_get_def map_keys_def js_sort_def byName_def example_keys example_names
      CATEGORY_ORDER_def DIGER_def collation_eval str_def)

theorem grouping_partition_witness:
  "grouped trCompare exampleMenu =
     [(str ''Burger'', [burgerDeluxe, cheeseBurger]),
      (str ''Tost'', [tostKasar]),
      (str ''burger'', [hamBurger]),
      (DIGER, [simit]),
      (str ''Toast'', [toastPlain])] \<and>
   mset [burgerDeluxe, cheeseBurger] + mset [tostKasar] + mset [hamBurger] + mset [simit] +
     mset [toastPlain] = mset exampleMenu \<and>
   distinct [str ''Burger'', str ''Tost'', str ''burger'', DIGER, str ''Toast'']"
  using grouping_partition [of trCompare exampleMenu]
  by (simp add: example_grouped add.assoc)

theorem group_order_witness:
  "consistent trCompare \<and>
   map fst (grouped trCompare exampleMenu) =
     [str ''Burger'', str ''Tost''] @ [str ''burger'', DIGER, str ''Toast''] \<and>
   filter (\<lambda>c. c \<in> groupKey ` set exampleMenu) CATEGORY_ORDER = [str ''Burger'', str ''Tost''] \<and>
   sorted_wrt (\<lambda>a b. trCompare a b \<le> 0) [str ''burger'', DIGER, str ''Toast''] \<and>
   sorted_wrt (\<lambda>a b. trPrimaryCompare a b \<le> 0) [str ''burger'', DIGER, str ''Toast''] \<and>
   trPrimaryCompare (str ''Toast'') (str ''tOAST'') = 0"
proof -
  have ref: "\<forall>a b. trCompare a b \<le> 0 \<longrightarrow> trPrimaryCompare a b \<le> 0"
    by (simp add: trCompare_def trPrimaryCompare_def Let_def)
  obtain extras where
    k: "map fst (grouped trCompare exampleMenu) =
          filter (\<lambda>c. c \<in> groupKey ` set exampleMenu) CATEGORY_ORDER @ extras"
    and s: "sorted_wrt (\<lambda>a b. trCompare a b \<le> 0) extras"
    and s': "sorted_wrt (\<lambda>a b. trPrimaryCompare a b \<le> 0) extras"
    using group_order [OF consistent_trCompare, of exampleMenu trPrimaryCompare] ref by blast
  have ci: "trPrimaryCompare (str ''Toast'') (str ''tOAST'') = 0"
    by (simp add: trPrimaryCompare_def trPrimary_def trLower_def trUpper_def str_def)
  have p: "filter (\<lambda>c. c \<in> groupKey ` set exampleMenu) CATEGORY_ORDER = [str ''Burger'', str ''Tost'']"
    by (simp add: exampleMenu_def example_keys CATEGORY_ORDER_def DIGER_def str_def)
  have g: "map fst (grouped trCompare exampleMenu) =
     [str ''Burger'', str ''Tost''] @ [str ''burger'', DIGER, str ''Toast'']"
    by (simp add: example_grouped)
  from k p g have "extras = [str ''burger'', DIGER, str ''Toast'']"
    by simp
  with s s' have "sorted_wrt (\<lambda>a b. trCompare a b \<le> 0) [str ''burger'', DIGER, str ''Toast'']"
    and "sorted_wrt (\<lambda>a b. trPrimaryCompare a b \<le> 0) [str ''burger'', DIGER, str ''Toast'']"
    by simp_all
  with p g ci consistent_trCompare show ?thesis
    by (intro conjI)
qed

lemma case_keys:
  "groupKey paddedBurger = str ''Burger''"
  "groupKey hamBurger = str ''burger''"
  "groupKey toastPlain = str ''Toast''"
  by (simp_all add: groupKey_trim paddedBurger_def hamBurger_def toastPlain_def trim_def
      isWhiteSpace_def str_def)

lemma case_names:
  "name paddedBurger = str ''Double Burger''"
  "name hamBurger = str ''Hamburger''"
  by (simp_all add: paddedBurger_def hamBurger_def)

lemma case_filtered:
  "filtered latinLowerCase caseMenu (str ''BURGER'') [] = [paddedBurger, hamBurger]"
  by (simp add: filtered_char latin_normalize_empty caseMenu_def toastPlain_def paddedBurger_def
      hamBurger_def string_eval)

lemma case_grouped:
  "grouped trCompare [paddedBurger, hamBurger] =
     [(str ''Burger'', [paddedBurger]), (str ''burger'', [hamBurger])]"
  by (simp add: grouped_def Let_def groupStep_def sortStep_def map_has_def
      map_get_def map_keys_def js_sort_def byName_def case_keys case_names
      CATEGORY_ORDER_def DIGER_def collation_eval str_def)

text \<open>
  A padded \<^verbatim>\<open>"  Burger "\<close> and a \<^verbatim>\<open>"burger"\<close>: the selection
  \<^verbatim>\<open>"BURGER"\<close> retains both, and they come out in the groups \<^verbatim>\<open>"Burger"\<close>
  (the blanks trimmed away) and \<^verbatim>\<open>"burger"\<close>.
\<close>

theorem case_variants_split_witness:
  "paddedBurger \<in> set caseMenu \<and> hamBurger \<in> set caseMenu \<and>
   groupKey paddedBurger \<noteq> groupKey hamBurger \<and>
   normalize latinLowerCase (Some []) = [] \<and>
   category paddedBurger = str ''  Burger '' \<and> groupKey paddedBurger = str ''Burger'' \<and>
   category hamBurger = str ''burger'' \<and> groupKey hamBurger = str ''burger'' \<and>
   normalize latinLowerCase (Some (category paddedBurger)) =
     normalize latinLowerCase (Some (category hamBurger)) \<and>
   filtered latinLowerCase caseMenu (str ''BURGER'') [] = [paddedBurger, hamBurger] \<and>
   grouped trCompare (filtered latinLowerCase caseMenu (str ''BURGER'') []) =
     [(str ''Burger'', [paddedBurger]), (str ''burger'', [hamBurger])] \<and>
   (\<exists>sel. sel \<noteq> TUMU \<and> paddedBurger \<in> set (filtered latinLowerCase caseMenu sel []) \<and>
          hamBurger \<in> set (filtered latinLowerCase caseMenu sel []))"
proof -
  have 1: "paddedBurger \<in> set caseMenu" and 2: "hamBurger \<in> set caseMenu"
    by (simp_all add: caseMenu_def)
  have 3: "groupKey paddedBurger \<noteq> groupKey hamBurger"
    by (simp add: case_keys str_def)
  note w = case_variants_split [OF 1 2 3 latin_normalize_empty, of trCompare]
  have c1: "category paddedBurger = str ''  Burger ''" and c2: "category hamBurger = str ''burger''"
    by (simp_all add: paddedBurger_def hamBurger_def)
  have same: "normalize latinLowerCase (Some (category paddedBurger)) =
     normalize latinLowerCase (Some (category hamBurger))"
    by (simp add: paddedBurger_def hamBurger_def string_eval)
  from w have "(\<exists>sel. sel \<noteq> TUMU \<and> paddedBurger \<in> set (filtered latinLowerCase caseMenu sel []) \<and>
          hamBurger \<in> set (filtered latinLowerCase caseMenu sel [])) =
      (normalize latinLowerCase (Some (category paddedBurger)) =
       normalize latinLowerCase (Some (category hamBurger)))"
    by (elim conjE)
  with same have e: "\<exists>sel. sel \<noteq> TUMU \<and>
      paddedBurger \<in> set (filtered latinLowerCase caseMenu sel []) \<and>
      hamBurger \<in> set (filtered latinLowerCase caseMenu sel [])"
    by (rule iffD2 [rotated])
  have g: "grouped trCompare (filtered latinLowerCase caseMenu (str ''BURGER'') []) =
     [(str ''Burger'', [paddedBurger]), (str ''burger'', [hamBurger])]"
    by (simp only: case_filtered case_grouped)
  show ?thesis
    by (intro conjI 1 2 3 latin_normalize_empty c1 c2 case_keys(1) case_keys(2) same
        case_filtered g e)
qed

text \<open>
  The wording of the specification, that two categories which differ only in letter case
  are retained by one selection, fails. \<^verbatim>\<open>"KAHVALTI"\<close> is the first preferred
  category in capitals (the same letters of the Turkish alphabet, as the first level of
  the collation confirms), but \<^verbatim>\<open>toLowerCase\<close> turns the capital I into the dotted
  i, not into the dotless one of the original. The two items fall into two groups, their
  normalized categories differ, and no selection other than the sentinel retains both.
\<close>

theorem case_variants_split_counterexample:
  "category kahvaltiUpper = str ''KAHVALTI'' \<and>
   category kahvaltiTitle = str ''Kahvalt'' @ [0x131] \<and>
   trPrimaryCompare (category kahvaltiUpper) (category kahvaltiTitle) = 0 \<and>
   groupKey kahvaltiUpper \<noteq> groupKey kahvaltiTitle \<and>
   normalize latinLowerCase (Some (category kahvaltiUpper)) = str ''kahvalti'' \<and>
   normalize latinLowerCase (Some (category kahvaltiTitle)) = str ''kahvalt'' @ [0x131] \<and>
   \<not> (\<exists>sel. sel \<noteq> TUMU \<and>
          kahvaltiUpper \<in> set (filtered latinLowerCase [kahvaltiUpper, kahvaltiTitle] sel []) \<and>
          kahvaltiTitle \<in> set (filtered latinLowerCase [kahvaltiUpper, kahvaltiTitle] sel []))"
proof -
  have c1: "category kahvaltiUpper = str ''KAHVALTI''"
    and c2: "category kahvaltiTitle = str ''Kahvalt'' @ [0x131]"
    by (simp_all add: kahvaltiUpper_def kahvaltiTitle_def)
  have p: "trPrimaryCompare (category kahvaltiUpper) (category kahvaltiTitle) = 0"
    by (simp add: c1 c2 trPrimaryCompare_def trPrimary_def trLower_def trUpper_def str_def)
  have k: "groupKey kahvaltiUpper \<noteq> groupKey kahvaltiTitle"
    by (simp add: groupKey_trim c1 c2 trim_def isWhiteSpace_def str_def)
  have n1: "normalize latinLowerCase (Some (category kahvaltiUpper)) = str ''kahvalti''"
    by (simp add: c1 string_eval)
  have n2: "normalize latinLowerCase (Some (category kahvaltiTitle)) = str ''kahvalt'' @ [0x131]"
    by (simp add: c2 string_eval)
  have d: "str ''kahvalti'' \<noteq> str ''kahvalt'' @ [0x131]"
    by (simp add: str_def)
  have no: "\<not> (\<exists>sel. sel \<noteq> TUMU \<and>
          kahvaltiUpper \<in> set (filtered latinLowerCase [kahvaltiUpper, kahvaltiTitle] sel []) \<and>
          kahvaltiTitle \<in> set (filtered latinLowerCase [kahvaltiUpper, kahvaltiTitle] sel []))"
  proof
    assume "\<exists>sel. sel \<noteq> TUMU \<and>
          kahvaltiUpper \<in> set (filtered latinLowerCase [kahvaltiUpper, kahvaltiTitle] sel []) \<and>
          kahvaltiTitle \<in> set (filtered latinLowerCase [kahvaltiUpper, kahvaltiTitle] sel [])"
    then obtain sel where s: "sel \<noteq> TUMU"
      and a: "kahvaltiUpper \<in> set (filtered latinLowerCase [kahvaltiUpper, kahvaltiTitle] sel [])"
      and b: "kahvaltiTitle \<in> set (filtered latinLowerCase [kahvaltiUpper, kahvaltiTitle] sel [])"
      by blast
    from s a have "normalize latinLowerCase (Some (category kahvaltiUpper)) =
        normalize latinLowerCase (Some sel)"
      by (auto simp: filtered_char split: if_splits)
    moreover from s b have "normalize latinLowerCase (Some (category kahvaltiTitle)) =
        normalize latinLowerCase (Some sel)"
      by (auto simp: filtered_char split: if_splits)
    ultimately have "str ''kahvalti'' = str ''kahvalt'' @ [0x131]"
      by (simp only: n1 n2)
    with d show False by simp
  qed
  show ?thesis
    by (intro conjI c1 c2 p k n1 n2 no)
qed

section \<open>The availability filter\<close>

text \<open>
  C6. The public view's \<^verbatim>\<open>activeItems\<close> is the sublist of the available items, and
  so is everything the public filters derive from it; every group holds available items of
  the input only. The admin pipeline has no such step: with no filter set (the sentinel
  category and a query that normalizes to the empty string) it returns a permutation of
  the whole list.
\<close>

theorem availability_filter:
  "activeItems all = filter isAvailable all \<and>
   subseq (activeItems all) all \<and>
   (\<forall>x \<in> set (activeItems all). isAvailable x) \<and>
   subseq (filtered lc (activeItems all) sel q) all \<and>
   (\<forall>x \<in> set (filtered lc (activeItems all) sel q). isAvailable x) \<and>
   (\<forall>g \<in> set (grouped cmp (filtered lc (activeItems all) sel q)).
      \<forall>x \<in> set (snd g). x \<in> set all \<and> isAvailable x) \<and>
   (normalize lc (Some q0) = [] \<longrightarrow> mset (filteredMenu lc cmp all q0 TUMU mode) = mset all)"
proof -
  have 0: "activeItems all = filter isAvailable all"
    by (simp add: activeItems_def)
  have 1: "subseq (activeItems all) all"
    by (simp add: activeItems_def)
  have 2: "\<forall>x \<in> set (activeItems all). isAvailable x"
    by (simp add: activeItems_def)
  have 3: "subseq (filtered lc (activeItems all) sel q) all"
    by (rule subseq_order.order_trans [OF subseq_filtered 1])
  have "set (filtered lc (activeItems all) sel q) \<subseteq> set (activeItems all)"
    by (simp add: filtered_char)
  with 2 have 4: "\<forall>x \<in> set (filtered lc (activeItems all) sel q). isAvailable x"
    by blast
  have 5: "normalize lc (Some q0) = [] \<longrightarrow> mset (filteredMenu lc cmp all q0 TUMU mode) = mset all"
    by (simp add: filteredMenu_mset)
  have "\<forall>g \<in> set (grouped cmp (filtered lc (activeItems all) sel q)).
          set (snd g) \<subseteq> set (filtered lc (activeItems all) sel q)"
    by (auto simp: grouped_char sortedGroup_def set_js_sort)
  moreover have "set (filtered lc (activeItems all) sel q) \<subseteq> set all"
    using 3 by (auto dest: list_emb_set)
  ultimately have 6: "\<forall>g \<in> set (grouped cmp (filtered lc (activeItems all) sel q)).
      \<forall>x \<in> set (snd g). x \<in> set all \<and> isAvailable x"
    using 4 by blast
  show ?thesis
    by (intro conjI 0 1 2 3 4 6 5)
qed

theorem availability_filter_witness:
  "activeItems [burgerDeluxe, ayranOff, toastPlain] = [burgerDeluxe, toastPlain] \<and>
   filtered latinLowerCase (activeItems [burgerDeluxe, ayranOff, toastPlain]) TUMU [] = [burgerDeluxe, toastPlain] \<and>
   isAvailable burgerDeluxe \<and> isAvailable toastPlain \<and> \<not> isAvailable ayranOff \<and>
   mset (filteredMenu latinLowerCase trCompare [burgerDeluxe, ayranOff, toastPlain] [] TUMU sort_default) =
     {#burgerDeluxe, ayranOff, toastPlain#}"
  using availability_filter [where all = "[burgerDeluxe, ayranOff, toastPlain]" and sel = TUMU
      and q = "[]" and cmp = trCompare and mode = sort_default and lc = latinLowerCase
      and ?q0.0 = "[]"]
  by (simp add: string_eval filtered_char burgerDeluxe_def toastPlain_def ayranOff_def)

section \<open>Validation before a mutation\<close>

lemma validateItem_None:
  "(validateItem n c p = None) = (trim n \<noteq> [] \<and> trim c \<noteq> [] \<and> isFinite p \<and> \<not> ltZero p)"
  by (simp add: validateItem_def)

lemma validateItem_nonempty: "validateItem n c p = Some msg \<Longrightarrow> msg \<noteq> []"
  by (auto simp: validateItem_def MSG_NAME_def MSG_CATEGORY_def MSG_NUMBER_def MSG_NEGATIVE_def
      str_def split: if_splits)

text \<open>
  C8. When the name or the category is blank after trimming, or the price is not finite
  or is negative, \<^verbatim>\<open>validateItem\<close> returns a non-empty message, and both
  \<^verbatim>\<open>createItem\<close> and \<^verbatim>\<open>saveEdit\<close> (with an item under edit) do nothing but
  show it: the trace holds the alert and no request, on every network, and the state is
  unchanged. Without an item under edit \<^verbatim>\<open>saveEdit\<close> does nothing at all.
\<close>

theorem validation_blocks_request:
  assumes bad: "trim n = [] \<or> trim c = [] \<or> \<not> isFinite p \<or> ltZero p"
  shows "\<exists>msg. validateItem n c p = Some msg \<and> msg \<noteq> [] \<and>
           (form_name st = n \<and> form_category st = c \<and> form_price st = p \<longrightarrow>
              createItem st net = ([Alert msg], st, Returned)) \<and>
           (editName st = n \<and> editCategory st = c \<and> editPrice st = p \<longrightarrow>
              saveEdit st net = (if editing st = None then [] else [Alert msg], st, Returned))"
proof -
  from bad have "validateItem n c p \<noteq> None"
    by (simp add: validateItem_None)
  then obtain msg where v: "validateItem n c p = Some msg"
    by blast
  then have ne: "msg \<noteq> []"
    by (rule validateItem_nonempty)
  have cr: "form_name st = n \<and> form_category st = c \<and> form_price st = p \<longrightarrow>
              createItem st net = ([Alert msg], st, Returned)"
    using v by (simp add: createItem_def)
  have sv: "editName st = n \<and> editCategory st = c \<and> editPrice st = p \<longrightarrow>
              saveEdit st net = (if editing st = None then [] else [Alert msg], st, Returned)"
    using v by (auto simp: saveEdit_def split: option.splits)
  from v ne cr sv show ?thesis
    by blast
qed

theorem validation_blocks_request_witness:
  "ltZero (Finite (- 5)) \<and>
   validateItem (str ''Ayran'') (str ''Drinks'') (Finite (- 5)) = Some MSG_NEGATIVE \<and>
   createItem exampleState refusing = ([Alert MSG_NEGATIVE], exampleState, Returned) \<and>
   saveEdit exampleState refusing = ([Alert MSG_NEGATIVE], exampleState, Returned)"
proof -
  have bad: "trim (str ''Ayran'') = [] \<or> trim (str ''Drinks'') = [] \<or> \<not> isFinite (Finite (- 5)) \<or>
             ltZero (Finite (- 5))"
    by (simp add: ltZero_def)
  have v: "validateItem (str ''Ayran'') (str ''Drinks'') (Finite (- 5)) = Some MSG_NEGATIVE"
    by (simp add: validateItem_def trim_def isWhiteSpace_def str_def isFinite_def ltZero_def)
  have v2: "validateItem (str ''Burger Deluxe'') (str ''Burger'') (Finite (- 5)) = Some MSG_NEGATIVE"
    by (simp add: validateItem_def trim_def isWhiteSpace_def str_def isFinite_def ltZero_def)
  have f: "form_name exampleState = str ''Ayran'' \<and> form_category exampleState = str ''Drinks'' \<and>
           form_price exampleState = Finite (- 5)"
    by (simp add: exampleState_def)
  have e: "editName exampleState = str ''Burger Deluxe'' \<and> editCategory exampleState = str ''Burger'' \<and>
           editPrice exampleState = Finite (- 5) \<and> editing exampleState \<noteq> None"
    by (simp add: exampleState_def)
  from validation_blocks_request [OF bad, of exampleState refusing] v f
  have 1: "createItem exampleState refusing = ([Alert MSG_NEGATIVE], exampleState, Returned)"
    by auto
  have bad2: "trim (str ''Burger Deluxe'') = [] \<or> trim (str ''Burger'') = [] \<or>
              \<not> isFinite (Finite (- 5)) \<or> ltZero (Finite (- 5))"
    by (simp add: ltZero_def)
  from validation_blocks_request [OF bad2, of exampleState refusing] v2 e
  have 2: "saveEdit exampleState refusing = ([Alert MSG_NEGATIVE], exampleState, Returned)"
    by auto
  have 0: "ltZero (Finite (- 5))"
    by (simp add: ltZero_def)
  show ?thesis
    by (intro conjI 0 v 1 2)
qed

text \<open>
  For comparison, the same form with a price of 15 does reach the network: the
  \<^verbatim>\<open>POST\<close> is sent and its refusal reported.
\<close>

lemma create_valid_example:
  "createItem (exampleState\<lparr>form_price := Finite 15\<rparr>) refusing =
     ([Fetch (PostMenu (str ''secret'')
         \<lparr>body_id = None, body_name = str ''Ayran'', body_price = Finite 15,
          body_category = str ''Drinks'', body_isAvailable = True, body_imageUrl = None,
          body_description = None\<rparr>),
       Alert (ADD_FAILED @ [0x0A] @ str ''Status: 500'' @ [0x0A])],
      exampleState\<lparr>form_price := Finite 15\<rparr>, Returned)"
  by (simp add: createItem_def validateItem_def exampleState_def refusing_def trimOrNull_def
      failureMessage_def orElse_def trim_def isWhiteSpace_def isFinite_def ltZero_def str_def
      decimal.simps)

section \<open>The pipelines do not write to their source\<close>

lemma frame_refl: "frame h h"
  by (simp add: frame_def)

lemma frame_trans: "frame h0 h1 \<Longrightarrow> frame h1 h2 \<Longrightarrow> frame h0 h2"
  by (auto simp: frame_def)

lemma frame_append: "frame h0 h \<Longrightarrow> frame h0 (h @ [xs])"
  by (auto simp: frame_def nth_append)

lemma frame_update: "frame h0 h \<Longrightarrow> length h0 \<le> a \<Longrightarrow> frame h0 (h[a := v])"
  by (auto simp: frame_def)

lemma frame_nth: "frame h0 h \<Longrightarrow> a < length h0 \<Longrightarrow> h ! a = h0 ! a"
  by (simp add: frame_def)

lemma frame_length: "frame h0 h \<Longrightarrow> length h0 \<le> length h"
  by (simp add: frame_def)

lemma keys_readGroups: "map fst (readGroups h m) = map fst m"
  by (simp add: readGroups_def comp_def)

lemma map_has_readGroups: "map_has (readGroups h m) k = map_has m k"
  by (simp add: map_has_def keys_readGroups)

lemma map_keys_readGroups: "map_keys (readGroups h m) = map_keys m"
  by (simp add: map_keys_def keys_readGroups)

lemma map_of_readGroups: "map_of (readGroups h m) k = map_option (\<lambda>a. h ! a) (map_of m k)"
  by (induction m) (auto simp: readGroups_def)

lemma map_get_readGroups: "map_get (readGroups h m) k = map_option (\<lambda>a. h ! a) (map_get m k)"
  by (simp add: map_get_def map_of_readGroups)

lemma readGroups_update_other:
  "a \<notin> set (map snd m) \<Longrightarrow> readGroups (h[a := v]) m = readGroups h m"
  by (induction m) (auto simp: readGroups_def)

lemma readGroups_append:
  "\<forall>a \<in> set (map snd m). a < length h \<Longrightarrow> readGroups (h @ [xs]) m = readGroups h m"
  by (induction m) (auto simp: readGroups_def nth_append)

lemma readGroups_snoc: "readGroups h (m @ [(k, a)]) = readGroups h m @ [(k, h ! a)]"
  by (simp add: readGroups_def)

lemma readGroups_update:
  "distinct (map snd m) \<Longrightarrow> map_of m key = Some a0 \<Longrightarrow> \<forall>a \<in> set (map snd m). a < length h \<Longrightarrow>
   readGroups (h[a0 := v]) m = map_set (readGroups h m) key v"
proof (induction m)
  case Nil
  then show ?case by simp
next
  case (Cons e m)
  obtain k a where e: "e = (k, a)" by (cases e)
  show ?case
  proof (cases "k = key")
    case True
    with Cons.prems e have a: "a = a0" and n: "a0 \<notin> set (map snd m)" and l: "a0 < length h"
      by auto
    from n have "readGroups (h[a0 := v]) m = readGroups h m"
      by (rule readGroups_update_other)
    with True e a l show ?thesis
      by (simp add: readGroups_def)
  next
    case False
    with Cons.prems e have m: "map_of m key = Some a0" and d: "distinct (map snd m)"
      and r: "\<forall>a \<in> set (map snd m). a < length h"
      by auto
    from m have "a0 \<in> set (map snd m)"
      by (metis map_of_SomeD set_zip_rightD zip_map_fst_snd)
    with Cons.prems e have "a \<noteq> a0" by auto
    moreover have "readGroups (h[a0 := v]) m = map_set (readGroups h m) key v"
      using d m r by (rule Cons.IH)
    ultimately show ?thesis
      using False e by (simp add: readGroups_def)
  qed
qed

lemma map_set_absent: "k \<notin> set (map fst m) \<Longrightarrow> map_set m k v = m @ [(k, v)]"
  by (induction m k v rule: map_set.induct) auto

lemma map_set_last: "k \<notin> set (map fst m) \<Longrightarrow> map_set (m @ [(k, v)]) k w = m @ [(k, w)]"
  by (induction m) auto

lemma map_set_same: "distinct (map fst m) \<Longrightarrow> (k, a) \<in> set m \<Longrightarrow> map_set m k a = m"
proof (induction m)
  case Nil
  then show ?case by simp
next
  case (Cons e m)
  then show ?case
    by (cases e) (auto simp: rev_image_eqI)
qed

text \<open>
  Each round of the first loop keeps the invariant and does to the store what
  \<open>groupStep\<close> does to the groups.
\<close>

lemma h_groupStep_refines:
  assumes f: "groupsFresh h0 h m"
  shows "groupsFresh h0 (fst (h_groupStep (h, m) x)) (snd (h_groupStep (h, m) x)) \<and>
         readGroups (fst (h_groupStep (h, m) x)) (snd (h_groupStep (h, m) x)) =
           groupStep (readGroups h m) x"
proof (cases "map_has m (groupKey x)")
  case True
  then obtain a where a: "map_of m (groupKey x) = Some a"
    by (auto simp: map_has_def dest: weak_map_of_SomeI)
  then have am: "a \<in> set (map snd m)"
    by (metis map_of_SomeD set_zip_rightD zip_map_fst_snd)
  with f have r: "length h0 \<le> a" "a < length h"
    by (auto simp: groupsFresh_def)
  have step: "h_groupStep (h, m) x = (h[a := h ! a @ [x]], m)"
    using True a by (simp add: h_groupStep_def Let_def map_get_def)
  have 1: "groupsFresh h0 (h[a := h ! a @ [x]]) m"
    using f r by (auto simp: groupsFresh_def frame_update)
  have "readGroups (h[a := h ! a @ [x]]) m = map_set (readGroups h m) (groupKey x) (h ! a @ [x])"
    using f a by (intro readGroups_update) (auto simp: groupsFresh_def)
  moreover have g: "map_get (readGroups h m) (groupKey x) = Some (h ! a)"
    by (simp add: map_get_def map_of_readGroups a)
  have "groupStep (readGroups h m) x = map_set (readGroups h m) (groupKey x) (h ! a @ [x])"
    using True g by (simp add: groupStep_def Let_def map_has_readGroups)
  moreover note this
  ultimately show ?thesis
    using 1 by (simp add: step)
next
  case False
  let ?k = "groupKey x"
  let ?a = "length h"
  from False have nk: "?k \<notin> set (map fst m)"
    by (simp add: map_has_def)
  then have ms: "map_set m ?k ?a = m @ [(?k, ?a)]"
    by (rule map_set_absent)
  have g1: "map_get (map_set m ?k ?a) ?k = Some ?a"
    by (simp add: map_get_def map_of_map_set)
  have "h_groupStep (h, m) x = ((h @ [[]])[?a := (h @ [[]]) ! ?a @ [x]], map_set m ?k ?a)"
    using False g1 by (simp add: h_groupStep_def Let_def alloc_def)
  then have step: "h_groupStep (h, m) x = ((h @ [[]])[?a := [x]], m @ [(?k, ?a)])"
    by (simp add: ms)
  from f have lt: "\<forall>a \<in> set (map snd m). a < length h"
    by (auto simp: groupsFresh_def)
  have upd: "(h @ [[]])[?a := [x]] = h @ [[x]]"
    by simp
  have 1: "groupsFresh h0 (h @ [[x]]) (m @ [(?k, ?a)])"
    using f lt by (auto simp: groupsFresh_def frame_append dest: frame_length)
  have "readGroups (h @ [[x]]) (m @ [(?k, ?a)]) = readGroups h m @ [(?k, [x])]"
    using lt by (simp add: readGroups_snoc readGroups_append)
  moreover have "groupStep (readGroups h m) x = readGroups h m @ [(?k, [x])]"
  proof -
    have nk': "?k \<notin> set (map fst (readGroups h m))"
      using nk by (simp add: keys_readGroups)
    have "map_set (readGroups h m) ?k [] = readGroups h m @ [(?k, [])]"
      using nk' by (rule map_set_absent)
    moreover have "map_set (readGroups h m @ [(?k, [])]) ?k [x] = readGroups h m @ [(?k, [x])]"
      using nk' by (rule map_set_last)
    moreover have "map_get (readGroups h m @ [(?k, [])]) ?k = Some []"
      using nk' by (simp add: map_get_def map_add_Some_iff map_of_eq_None_iff)
    ultimately show ?thesis
      using False by (simp add: groupStep_def Let_def map_has_readGroups)
  qed
  ultimately show ?thesis
    using 1 by (simp add: step upd)
qed

lemma h_groupLoop_refines:
  "groupsFresh h0 h m \<Longrightarrow>
   groupsFresh h0 (fst (foldl h_groupStep (h, m) xs)) (snd (foldl h_groupStep (h, m) xs)) \<and>
   readGroups (fst (foldl h_groupStep (h, m) xs)) (snd (foldl h_groupStep (h, m) xs)) =
     foldl groupStep (readGroups h m) xs"
proof (induction xs arbitrary: h m)
  case Nil
  then show ?case by simp
next
  case (Cons x xs)
  obtain h1 m1 where s: "h_groupStep (h, m) x = (h1, m1)"
    by (cases "h_groupStep (h, m) x")
  from h_groupStep_refines [OF Cons.prems, of x] s
  have f1: "groupsFresh h0 h1 m1" and r1: "readGroups h1 m1 = groupStep (readGroups h m) x"
    by simp_all
  from Cons.IH [OF f1] show ?case
    by (simp add: s r1)
qed

lemma map_of_member:
  "distinct (map fst m) \<Longrightarrow> (k, a) \<in> set m \<Longrightarrow> map_of m k = Some a"
  by simp

lemma h_sortLoop_refines:
  assumes d: "distinct (map fst m)"
  shows "groupsFresh h0 h m \<Longrightarrow> set es \<subseteq> set m \<Longrightarrow> distinct (map snd es) \<Longrightarrow>
         snd (foldl (h_sortStep cmp) (h, m) es) = m \<and>
         groupsFresh h0 (fst (foldl (h_sortStep cmp) (h, m) es)) m \<and>
         readGroups (fst (foldl (h_sortStep cmp) (h, m) es)) m =
           foldl (sortStep cmp) (readGroups h m) (readGroups h es)"
proof (induction es arbitrary: h)
  case Nil
  then show ?case by (simp add: readGroups_def)
next
  case (Cons e es)
  obtain k a where e: "e = (k, a)" by (cases e)
  let ?h1 = "h[a := js_sort (byName cmp) (h ! a)]"
  from Cons.prems e have mem: "(k, a) \<in> set m" and sub: "set es \<subseteq> set m"
    and des: "distinct (map snd es)" and na: "a \<notin> set (map snd es)"
    by auto
  from mem have am: "a \<in> set (map snd m)"
    by (metis image_eqI list.set_map snd_conv)
  with Cons.prems(1) have r: "length h0 \<le> a" "a < length h"
    by (auto simp: groupsFresh_def)
  have same: "map_set m k a = m"
    using d mem by (rule map_set_same)
  have step: "h_sortStep cmp (h, m) e = (?h1, m)"
    by (simp add: h_sortStep_def e same)
  have f1: "groupsFresh h0 ?h1 m"
    using Cons.prems(1) r by (auto simp: groupsFresh_def frame_update)
  have mo: "map_of m k = Some a"
    using d mem by (rule map_of_member)
  have "readGroups ?h1 m = map_set (readGroups h m) k (js_sort (byName cmp) (h ! a))"
    using Cons.prems(1) mo by (intro readGroups_update) (auto simp: groupsFresh_def)
  then have r1: "readGroups ?h1 m = sortStep cmp (readGroups h m) (k, h ! a)"
    by (simp add: sortStep_def)
  have r2: "readGroups ?h1 es = readGroups h es"
    using na by (rule readGroups_update_other)
  from Cons.IH [OF f1 sub des]
  show ?case
    by (simp add: step r1 r2) (simp add: readGroups_def e)
qed

lemma distinct_keys_groupLoop: "distinct (map fst (foldl groupStep [] xs))"
  by (simp add: keys_groupLoop distinct_firstSeen)

lemma groupsFresh_empty: "groupsFresh h h []"
  by (simp add: groupsFresh_def frame_refl)

lemma h_grouped_refines:
  "frame h (fst (h_grouped cmp h flt)) \<and>
   readGroups (fst (h_grouped cmp h flt)) (snd (h_grouped cmp h flt)) = grouped cmp (h ! flt) \<and>
   (\<forall>a \<in> set (map snd (snd (h_grouped cmp h flt))). length h \<le> a)"
proof -
  obtain h1 m where l1: "foldl h_groupStep (h, []) (h ! flt) = (h1, m)"
    by (cases "foldl h_groupStep (h, []) (h ! flt)")
  from h_groupLoop_refines [OF groupsFresh_empty, of h "h ! flt"] l1
  have f1: "groupsFresh h h1 m" and r1: "readGroups h1 m = foldl groupStep [] (h ! flt)"
    by (simp_all add: readGroups_def)
  have d: "distinct (map fst m)"
    using distinct_keys_groupLoop [of "h ! flt"] r1 keys_readGroups [of h1 m] by simp
  obtain h2 m2 where l2: "foldl (h_sortStep cmp) (h1, m) m = (h2, m2)"
    by (cases "foldl (h_sortStep cmp) (h1, m) m")
  from f1 have dm: "distinct (map snd m)"
    by (simp add: groupsFresh_def)
  from h_sortLoop_refines [OF d f1 subset_refl dm, of cmp] l2
  have m2: "m2 = m" and f2: "groupsFresh h h2 m"
    and r2: "readGroups h2 m = foldl (sortStep cmp) (readGroups h1 m) (readGroups h1 m)"
    by simp_all
  let ?pm = "foldl (sortStep cmp) (foldl groupStep [] (h ! flt)) (foldl groupStep [] (h ! flt))"
  have pm: "readGroups h2 m = ?pm"
    using r2 r1 by simp
  let ?K = "filter (\<lambda>c. map_has m c) CATEGORY_ORDER @
            js_sort cmp (filter (\<lambda>k. k \<notin> set CATEGORY_ORDER) (map_keys m))"
  have res: "h_grouped cmp h flt = (h2, map (\<lambda>c. (c, the (map_get m c))) ?K)"
    by (simp add: h_grouped_def l1 l2 m2 Let_def)
  have has: "\<And>c. c \<in> set ?K \<Longrightarrow> map_has m c"
    by (auto simp: set_js_sort map_keys_def map_has_def)
  have hp: "map_has ?pm = map_has m"
    by (intro ext) (simp add: pm [symmetric] map_has_readGroups)
  have kp: "map_keys ?pm = map_keys m"
    by (simp add: pm [symmetric] map_keys_readGroups)
  have gp: "\<And>c. c \<in> set ?K \<Longrightarrow> the (map_get ?pm c) = h2 ! the (map_get m c)"
  proof -
    fix c assume "c \<in> set ?K"
    then have "map_has m c" by (rule has)
    then obtain a where "map_get m c = Some a"
      by (auto simp: map_has_def map_get_def dest: weak_map_of_SomeI)
    then show "the (map_get ?pm c) = h2 ! the (map_get m c)"
      by (simp add: pm [symmetric] map_get_readGroups)
  qed
  have "grouped cmp (h ! flt) = map (\<lambda>c. (c, the (map_get ?pm c))) ?K"
    by (simp add: grouped_def Let_def hp kp)
  also have "\<dots> = map (\<lambda>c. (c, h2 ! the (map_get m c))) ?K"
    using gp by (simp cong: map_cong)
  also have "\<dots> = readGroups h2 (map (\<lambda>c. (c, the (map_get m c))) ?K)"
    by (simp add: readGroups_def comp_def)
  finally have 2: "readGroups h2 (map (\<lambda>c. (c, the (map_get m c))) ?K) = grouped cmp (h ! flt)"
    by simp
  have 3: "\<forall>a \<in> set (map snd (map (\<lambda>c. (c, the (map_get m c))) ?K)). length h \<le> a"
  proof
    fix a assume "a \<in> set (map snd (map (\<lambda>c. (c, the (map_get m c))) ?K))"
    then obtain c where c: "c \<in> set ?K" and a: "a = the (map_get m c)"
      by auto
    from c have "map_has m c" by (rule has)
    then obtain a' where a': "map_of m c = Some a'"
      by (auto simp: map_has_def dest: weak_map_of_SomeI)
    then have "a' \<in> set (map snd m)"
      by (metis map_of_SomeD set_zip_rightD zip_map_fst_snd)
    with f2 have "length h \<le> a'"
      by (auto simp: groupsFresh_def)
    with a a' show "length h \<le> a"
      by (simp add: map_get_def)
  qed
  from f2 have 1: "frame h h2"
    by (simp add: groupsFresh_def)
  show ?thesis
    using 1 2 3 by (simp only: res fst_conv snd_conv simp_thms)
qed

lemma frame_self_append: "frame h (h @ ys)"
  by (simp add: frame_def nth_append)

lemma frame_self_append_update: "length h \<le> a \<Longrightarrow> frame h ((h @ ys)[a := v])"
  by (simp add: frame_def nth_append)

lemma h_activeItems_refines:
  "frame h (fst (h_activeItems h src)) \<and>
   fst (h_activeItems h src) ! snd (h_activeItems h src) = activeItems (h ! src) \<and>
   snd (h_activeItems h src) = length h \<and>
   length (fst (h_activeItems h src)) = Suc (length h)"
  by (simp add: h_activeItems_def alloc_def activeItems_def frame_append frame_refl)

lemma h_filtered_refines:
  assumes "act < length h"
  shows "frame h (fst (h_filtered lc h act ac q)) \<and>
         fst (h_filtered lc h act ac q) ! snd (h_filtered lc h act ac q) = filtered lc (h ! act) ac q \<and>
         act \<le> snd (h_filtered lc h act ac q) \<and>
         snd (h_filtered lc h act ac q) < length (fst (h_filtered lc h act ac q))"
  using assms
  by (simp add: h_filtered_def filtered_def alloc_def Let_def frame_self_append frame_refl
      nth_append)

lemma h_filteredMenu_refines:
  assumes "src < length h"
  shows "frame h (fst (h_filteredMenu lc cmp h src q sel mode)) \<and>
         fst (h_filteredMenu lc cmp h src q sel mode) ! snd (h_filteredMenu lc cmp h src q sel mode) =
           filteredMenu lc cmp (h ! src) q sel mode \<and>
         length h \<le> snd (h_filteredMenu lc cmp h src q sel mode)"
  using assms
  by (simp add: h_filteredMenu_def filteredMenu_def alloc_def Let_def frame_self_append
      frame_self_append_update nth_append)

text \<open>
  C9. Neither pipeline writes to its source. Run on any store, from any array \<open>src\<close> of
  it, the public view (availability filter, filters, grouping and sorting) and the admin
  view (copy, filters, sort in any mode) return a store in which every array that was
  there before is unchanged, the source among them; everything they return lies at
  addresses allocated since; and what is found there is what the functions of the
  previous sections compute from the source.
\<close>

theorem pipelines_preserve_source:
  assumes src: "src < length h"
  shows "(case h_publicView lc cmp h src ac q of
            (h', active, flt, groups) \<Rightarrow>
              frame h h' \<and> h' ! src = h ! src \<and>
              length h \<le> active \<and> length h \<le> flt \<and>
              (\<forall>a \<in> set (map snd groups). length h \<le> a) \<and>
              h' ! active = activeItems (h ! src) \<and>
              h' ! flt = filtered lc (activeItems (h ! src)) ac q \<and>
              readGroups h' groups = grouped cmp (filtered lc (activeItems (h ! src)) ac q)) \<and>
         (case h_filteredMenu lc cmp h src q sel mode of
            (h', r) \<Rightarrow>
              frame h h' \<and> h' ! src = h ! src \<and> length h \<le> r \<and>
              h' ! r = filteredMenu lc cmp (h ! src) q sel mode)"
proof -
  obtain h1 act where s1: "h_activeItems h src = (h1, act)"
    by (cases "h_activeItems h src")
  from h_activeItems_refines [of h src]
  have f1: "frame h h1" and r1: "h1 ! act = activeItems (h ! src)" and a1: "act = length h"
    and l1: "length h1 = Suc (length h)"
    unfolding s1 fst_conv snd_conv by blast+
  from a1 l1 have act: "act < length h1" by simp
  obtain h2 flt where s2: "h_filtered lc h1 act ac q = (h2, flt)"
    by (cases "h_filtered lc h1 act ac q")
  from h_filtered_refines [OF act, where lc = lc and ac = ac and q = q]
  have f2: "frame h1 h2" and r2: "h2 ! flt = filtered lc (h1 ! act) ac q" and a2: "act \<le> flt"
    and l2: "flt < length h2"
    unfolding s2 fst_conv snd_conv by blast+
  obtain h3 g where s3: "h_grouped cmp h2 flt = (h3, g)"
    by (cases "h_grouped cmp h2 flt")
  from h_grouped_refines [of h2 cmp flt]
  have f3: "frame h2 h3" and r3: "readGroups h3 g = grouped cmp (h2 ! flt)"
    and a3: "\<forall>a \<in> set (map snd g). length h2 \<le> a"
    unfolding s3 fst_conv snd_conv by blast+
  have pv: "h_publicView lc cmp h src ac q = (h3, act, flt, g)"
    by (simp only: h_publicView_def s1 s2 s3 Let_def prod.case)
  have f13: "frame h1 h3"
    using f2 f3 by (rule frame_trans)
  have f03: "frame h h3"
    using f1 f13 by (rule frame_trans)
  have len: "length h \<le> length h2"
    using f1 f2 by (meson frame_length le_trans)
  have p1: "h3 ! src = h ! src"
    using f03 src by (rule frame_nth)
  have p2: "length h \<le> act" "length h \<le> flt"
    using a1 a2 by simp_all
  have p3: "\<forall>a \<in> set (map snd g). length h \<le> a"
    using a3 len by auto
  have p4: "h3 ! act = activeItems (h ! src)"
    using frame_nth [OF f13 act] r1 by simp
  have p5: "h3 ! flt = filtered lc (activeItems (h ! src)) ac q"
    using frame_nth [OF f3 l2] r2 r1 by simp
  have p6: "readGroups h3 g = grouped cmp (filtered lc (activeItems (h ! src)) ac q)"
    using r3 r2 r1 by simp
  obtain h4 r where s4: "h_filteredMenu lc cmp h src q sel mode = (h4, r)"
    by (cases "h_filteredMenu lc cmp h src q sel mode")
  from h_filteredMenu_refines [OF src, where lc = lc and cmp = cmp and q = q and sel = sel
      and mode = mode]
  have f4: "frame h h4" and r4: "h4 ! r = filteredMenu lc cmp (h ! src) q sel mode"
    and a4: "length h \<le> r"
    unfolding s4 fst_conv snd_conv by blast+
  have p7: "h4 ! src = h ! src"
    using f4 src by (rule frame_nth)
  show ?thesis
    using f03 p1 p2 p3 p4 p5 p6 f4 p7 a4 r4
    by (simp only: pv s4 prod.case simp_thms)
qed

lemma example_admin_store:
  "h_filteredMenu latinLowerCase trCompare exampleStore 0 [] TUMU sort_default =
     ([[burgerDeluxe, ayranOff, toastPlain], [burgerDeluxe, toastPlain, ayranOff]], 1)"
  by (simp add: h_filteredMenu_def exampleStore_def alloc_def Let_def latin_normalize_empty
      js_sort_def defaultCompare_def burgerDeluxe_def toastPlain_def ayranOff_def
      collation_eval str_def)

lemma example_keys2:
  "groupKey toastPlain = str ''Toast''"
  "groupKey burgerDeluxe = str ''Burger''"
  by (rule example_keys)+

lemma example_public_store:
  "h_publicView latinLowerCase trCompare exampleStore 0 TUMU [] =
     ([[burgerDeluxe, ayranOff, toastPlain], [burgerDeluxe, toastPlain], [burgerDeluxe],
       [toastPlain]],
      1, 1, [(str ''Burger'', 2), (str ''Toast'', 3)])"
proof -
  have a: "isAvailable burgerDeluxe" "\<not> isAvailable ayranOff" "isAvailable toastPlain"
    by (simp_all add: burgerDeluxe_def ayranOff_def toastPlain_def)
  have 1: "h_activeItems exampleStore 0 =
             ([[burgerDeluxe, ayranOff, toastPlain], [burgerDeluxe, toastPlain]], 1)"
    by (simp add: h_activeItems_def exampleStore_def alloc_def a)
  have 2: "h_filtered latinLowerCase [[burgerDeluxe, ayranOff, toastPlain], [burgerDeluxe, toastPlain]] 1 TUMU [] =
             ([[burgerDeluxe, ayranOff, toastPlain], [burgerDeluxe, toastPlain]], 1)"
    by (simp add: h_filtered_def Let_def latin_normalize_empty)
  have 3: "h_grouped trCompare [[burgerDeluxe, ayranOff, toastPlain], [burgerDeluxe, toastPlain]] 1 =
             ([[burgerDeluxe, ayranOff, toastPlain], [burgerDeluxe, toastPlain], [burgerDeluxe],
               [toastPlain]], [(str ''Burger'', 2), (str ''Toast'', 3)])"
    by (simp add: h_grouped_def h_groupStep_def h_sortStep_def Let_def alloc_def map_has_def
        map_get_def map_keys_def js_sort_def byName_def example_keys2 CATEGORY_ORDER_def
        collation_eval str_def)
  show ?thesis
    by (simp only: h_publicView_def 1 2 3 Let_def prod.case)
qed

theorem pipelines_preserve_source_witness:
  "0 < length exampleStore \<and>
   h_publicView latinLowerCase trCompare exampleStore 0 TUMU [] =
     ([[burgerDeluxe, ayranOff, toastPlain], [burgerDeluxe, toastPlain], [burgerDeluxe],
       [toastPlain]],
      1, 1, [(str ''Burger'', 2), (str ''Toast'', 3)]) \<and>
   h_filteredMenu latinLowerCase trCompare exampleStore 0 [] TUMU sort_default =
     ([[burgerDeluxe, ayranOff, toastPlain], [burgerDeluxe, toastPlain, ayranOff]], 1) \<and>
   fst (h_publicView latinLowerCase trCompare exampleStore 0 TUMU []) ! 0 = exampleStore ! 0 \<and>
   fst (h_filteredMenu latinLowerCase trCompare exampleStore 0 [] TUMU sort_default) ! 0 = exampleStore ! 0"
proof -
  have l: "0 < length exampleStore"
    by (simp add: exampleStore_def)
  from pipelines_preserve_source [OF l, where lc = latinLowerCase and cmp = trCompare
      and ac = TUMU and q = "[]" and sel = TUMU and mode = sort_default]
  have "fst (h_publicView latinLowerCase trCompare exampleStore 0 TUMU []) ! 0 = exampleStore ! 0"
    and "fst (h_filteredMenu latinLowerCase trCompare exampleStore 0 [] TUMU sort_default) ! 0 = exampleStore ! 0"
    by (auto split: prod.splits)
  with l example_public_store example_admin_store show ?thesis
    by (intro conjI)
qed

end
